theory Spec2Isabelle
  imports Main "HOL-Library.Word" "HOL-Library.Char_ord" "HOL-Library.List_Lexorder"
begin

section \<open>Frame-number extraction (\<open>strip_frame\<close>, exrtool.cpp lines 18-27)\<close>

type_synonym u32 = "32 word"

text \<open>The C library's character classes in the "C" locale, on the byte value of a character.\<close>

definition isdigit :: "char \<Rightarrow> bool" where
  "isdigit c \<longleftrightarrow> 48 \<le> (of_char c :: nat) \<and> (of_char c :: nat) \<le> 57"

definition isspace :: "char \<Rightarrow> bool" where
  "isspace c \<longleftrightarrow> (of_char c :: nat) = 32 \<or> (9 \<le> (of_char c :: nat) \<and> (of_char c :: nat) \<le> 13)"

text \<open>
  \<open>atoi\<close> is the C library's: it skips white space, reads an optional sign and then the
  longest run of decimal digits. The C standard defines its result only when the number
  fits an \<open>int\<close> (32 bits here); what a library returns otherwise is the parameter
  \<open>ovf\<close>, applied to the mathematical value of the digits.
\<close>

fun digits_val :: "nat \<Rightarrow> string \<Rightarrow> nat" where
  "digits_val acc [] = acc"
| "digits_val acc (c # cs) =
     (if isdigit c then digits_val (acc * 10 + ((of_char c :: nat) - 48)) cs else acc)"

definition INT_MAX :: int where
  "INT_MAX = 2147483647"

definition INT_MIN :: int where
  "INT_MIN = - 2147483648"

definition atoi :: "(int \<Rightarrow> int) \<Rightarrow> string \<Rightarrow> int" where
  "atoi ovf s =
     (let t = dropWhile isspace s;
          v = (case t of
                 [] \<Rightarrow> 0
               | c # r \<Rightarrow>
                   if c = CHR ''-'' then - int (digits_val 0 r)
                   else if c = CHR ''+'' then int (digits_val 0 r)
                   else int (digits_val 0 t))
      in if INT_MIN \<le> v \<and> v \<le> INT_MAX then v else ovf v)"

text \<open>
  Two libraries' results out of range. glibc on a 64-bit Linux computes
  \<open>(int) strtol(s, NULL, 10)\<close>: \<open>strtol\<close> saturates at the bounds of a 64-bit
  \<open>long\<close> and the conversion to \<open>int\<close> keeps the low 32 bits. Microsoft's C runtime
  saturates at the bounds of \<open>int\<close>.
\<close>

definition atoi_ovf_lp64 :: "int \<Rightarrow> int" where
  "atoi_ovf_lp64 v = sint (word_of_int (max (- (2 ^ 63)) (min (2 ^ 63 - 1) v)) :: 32 word)"

definition atoi_ovf_saturate :: "int \<Rightarrow> int" where
  "atoi_ovf_saturate v = max INT_MIN (min INT_MAX v)"

text \<open>The sentinel \<open>~0u\<close> that stands for "no frame number".\<close>

definition no_frame :: u32 where
  "no_frame = - 1"

text \<open>
  The two backward loops of \<open>strip_frame\<close>. Pointers into the string are indices:
  \<open>scan_end s e\<close> is the loop \<open>while (end > str && !isdigit(end[-1])) end--\<close> started
  at \<open>end = str + e\<close>, and \<open>scan_begin s b\<close> is
  \<open>while (begin > str && isdigit(begin[-1])) begin--\<close>.
\<close>

fun scan_end :: "string \<Rightarrow> nat \<Rightarrow> nat" where
  "scan_end s 0 = 0"
| "scan_end s (Suc e) = (if \<not> isdigit (s ! e) then scan_end s e else Suc e)"

fun scan_begin :: "string \<Rightarrow> nat \<Rightarrow> nat" where
  "scan_begin s 0 = 0"
| "scan_begin s (Suc b) = (if isdigit (s ! b) then scan_begin s b else Suc b)"

definition strip_frame :: "(int \<Rightarrow> int) \<Rightarrow> string \<Rightarrow> u32" where
  "strip_frame ovf str =
     (let end = scan_end str (length str);
          begin = scan_begin str end
      in if begin = end then no_frame
         else word_of_int (atoi ovf (drop begin str)))"

text \<open>The decimal value of a string of digits, for stating what is parsed.\<close>

definition decimal :: "string \<Rightarrow> nat" where
  "decimal ds = foldl (\<lambda>a c. a * 10 + ((of_char c :: nat) - 48)) 0 ds"

section \<open>The codec and the data of a run\<close>

text \<open>
  The image codec (tinyexr) is outside the engine. Of its structures only the fields that
  \<open>process_frame\<close> reads or writes are named; everything else a header or an image
  carries (data window, compression, width, height, tiles) is one opaque field.
  \<open>num_channels\<close> is the length of the channel list, and the planes
  \<open>image.images[i]\<close> come in the order of \<open>header.channels[i]\<close>.
\<close>

record EXRChannelInfo =
  chan_name :: string
  pixel_type :: int

record 'h EXRHeader =
  header_channels :: "EXRChannelInfo list"
  pixel_types :: "int list"
  requested_pixel_types :: "int list"
  header_other :: 'h

record ('d, 'i) EXRImage =
  images :: "'d list"
  image_other :: 'i

text \<open>
  The four codec calls, as functions of the file name: a failure carries the codec's
  message. The files read are not changed by the run.
\<close>

record ('v, 'h, 'd, 'i) codec =
  ParseEXRVersionFromFile :: "string \<Rightarrow> 'v option"
  ParseEXRHeaderFromFile :: "'v \<Rightarrow> string \<Rightarrow> string + 'h EXRHeader"
  LoadEXRImageFromFile :: "'h EXRHeader \<Rightarrow> string \<Rightarrow> string + ('d, 'i) EXRImage"
  SaveEXRImageToFile :: "('d, 'i) EXRImage \<Rightarrow> 'h EXRHeader \<Rightarrow> string \<Rightarrow> string option"

text \<open>The caller's input (exrtool.h) and the run's own copy of a file.\<close>

record exrtool_file =
  file_name :: string
  file_channels :: "string list"

record exrtool_input =
  output_file :: string
  files :: "exrtool_file list"
  num_threads :: nat
  progress_fn :: bool

record exrtool_run_file =
  name :: string
  channels :: "string set"

definition use_channel :: "exrtool_run_file \<Rightarrow> string \<Rightarrow> bool" where
  "use_channel file channel \<longleftrightarrow> channel \<in> channels file"

text \<open>
  The messages of \<open>run.error\<close>, by the call that records them. The four calls for a
  failing codec call hand the file name or the output path to the C variadic function as a
  \<open>std::string\<close> object, not as its characters, so the source does not determine the
  text that \<open>%s\<close> formats: such an error is only its kind. The frame number of the
  "no channels" message is passed as a \<open>uint32_t\<close> and is part of the error.
\<close>

datatype error =
  VersionParseError
| HeaderParseError
| ImageLoadError
| NoChannelsError u32
| ImageSaveError

text \<open>
  A call of the progress notification: from inside the worker's loop, after the frame group
  at an index was processed, or after the loop, when the thread has counted itself done.
\<close>

datatype progress_call = InLoop nat nat | AtExit nat

text \<open>
  The run. \<open>threads\<close> holds for each worker thread whether its function has returned.
  \<open>save_calls\<close> and \<open>progress_calls\<close> record, in order, the calls of
  \<open>SaveEXRImageToFile\<close> and of the progress notification.
\<close>

record ('h, 'd, 'i) exrtool_run =
  frames :: "(u32 \<times> exrtool_run_file list) list"
  output_name :: string
  input :: exrtool_input
  a_frames_started :: u32
  a_progress :: u32
  a_threads_done :: u32
  threads :: "bool list"
  errors :: "error list"
  save_calls :: "(string \<times> ('d, 'i) EXRImage \<times> 'h EXRHeader) list"
  progress_calls :: "progress_call list"

definition run_error :: "error \<Rightarrow> ('h, 'd, 'i) exrtool_run \<Rightarrow> ('h, 'd, 'i) exrtool_run" where
  "run_error e run = run\<lparr>errors := errors run @ [e]\<rparr>"

definition progress_add :: "('h, 'd, 'i) exrtool_run \<Rightarrow> ('h, 'd, 'i) exrtool_run" where
  "progress_add run = run\<lparr>a_progress := a_progress run + 1\<rparr>"

section \<open>Merging the channels of a frame group (\<open>process_frame\<close>, lines 70-194)\<close>

text \<open>
  \<open>std::lower_bound\<close> with the comparison \<open>strcmp(lhs.name, rhs.name) < 0\<close>: the
  first position whose name is not below the new channel's. \<open>strcmp\<close> compares bytes
  as unsigned values, which is the order of \<open>string\<close> here.
\<close>

definition lower_bound :: "EXRChannelInfo list \<Rightarrow> EXRChannelInfo \<Rightarrow> nat" where
  "lower_bound chans chan = length (takeWhile (\<lambda>lhs. chan_name lhs < chan_name chan) chans)"

text \<open>Lines 120-132: overwrite the entry of that name, or insert a new one in place.\<close>

definition merge_channel ::
  "EXRChannelInfo \<Rightarrow> 'd \<Rightarrow> EXRChannelInfo list \<times> 'd list \<Rightarrow> EXRChannelInfo list \<times> 'd list" where
  "merge_channel chan data t =
     (case t of (chans, datas) \<Rightarrow>
        let offset = lower_bound chans chan in
        if offset < length chans \<and> chan_name (chans ! offset) = chan_name chan
        then (chans[offset := chan], datas[offset := data])
        else (take offset chans @ chan # drop offset chans,
              take offset datas @ data # drop offset datas))"

text \<open>Lines 115-133: the loop over the channels of one decoded file.\<close>

fun merge_file_channels ::
  "exrtool_run_file \<Rightarrow> (EXRChannelInfo \<times> 'd) list \<Rightarrow> EXRChannelInfo list \<times> 'd list
   \<Rightarrow> EXRChannelInfo list \<times> 'd list" where
  "merge_file_channels file [] t = t"
| "merge_file_channels file ((chan, data) # rest) t =
     (if \<not> use_channel file (chan_name chan) then merge_file_channels file rest t
      else merge_file_channels file rest (merge_channel chan data t))"

text \<open>The local vectors of \<open>process_frame\<close>.\<close>

record ('h, 'd, 'i) frame_locals =
  headers :: "'h EXRHeader list"
  imgs :: "('d, 'i) EXRImage list"
  chans :: "EXRChannelInfo list"
  datas :: "'d list"

text \<open>
  Lines 80-137: the loop over the files of the group. The result's first component is
  \<open>ok\<close>; a failing call records its error and leaves the loop.
\<close>

fun decode_files ::
  "('v, 'h, 'd, 'i) codec \<Rightarrow> exrtool_run_file list \<Rightarrow> ('h, 'd, 'i) frame_locals
   \<Rightarrow> ('h, 'd, 'i) exrtool_run \<Rightarrow> bool \<times> ('h, 'd, 'i) frame_locals \<times> ('h, 'd, 'i) exrtool_run" where
  "decode_files cd [] l run = (True, l, run)"
| "decode_files cd (file # rest) l run =
     (case ParseEXRVersionFromFile cd (name file) of
        None \<Rightarrow> (False, l, run_error VersionParseError run)
      | Some version \<Rightarrow>
          (case ParseEXRHeaderFromFile cd version (name file) of
             Inl err \<Rightarrow> (False, l, run_error HeaderParseError run)
           | Inr header \<Rightarrow>
               (case LoadEXRImageFromFile cd header (name file) of
                  Inl err \<Rightarrow> (False, l, run_error ImageLoadError run)
                | Inr img \<Rightarrow>
                    (case merge_file_channels file (zip (header_channels header) (images img))
                            (chans l, datas l) of
                       (cs, ds) \<Rightarrow>
                         decode_files cd rest
                           (l\<lparr>headers := headers l @ [header], imgs := imgs l @ [img],
                              chans := cs, datas := ds\<rparr>)
                           (progress_add run)))))"

section \<open>The output path (lines 161-171)\<close>

text \<open>\<open>name.find_last_of('#')\<close>, searching downwards from an index; \<open>None\<close> is \<open>npos\<close>.\<close>

fun find_last_from :: "string \<Rightarrow> char \<Rightarrow> nat \<Rightarrow> nat option" where
  "find_last_from s c 0 = None"
| "find_last_from s c (Suc i) = (if s ! i = c then Some i else find_last_from s c i)"

definition find_last_of :: "string \<Rightarrow> char \<Rightarrow> nat option" where
  "find_last_of s c = find_last_from s c (length s)"

text \<open>The loop \<open>while (begin > 0 && name[begin - 1] == '#') begin--\<close>.\<close>

fun hash_begin :: "string \<Rightarrow> nat \<Rightarrow> nat" where
  "hash_begin s 0 = 0"
| "hash_begin s (Suc b) = (if s ! b = CHR ''#'' then hash_begin s b else Suc b)"

text \<open>The decimal digits that \<open>%u\<close> prints.\<close>

function dec_digits :: "nat \<Rightarrow> string" where
  "dec_digits n =
     (if n < 10 then [char_of (48 + n)]
      else dec_digits (n div 10) @ [char_of (48 + n mod 10)])"
  by pat_completeness auto
termination
  by (relation "measure id") auto

declare dec_digits.simps [simp del]

text \<open>
  \<open>snprintf(buf, bufsz, "%0*u", width, frame)\<close>: the field width is an \<open>int\<close>; a
  negative width asks for left justification in a field of its absolute value, padded with
  spaces. At most \<open>bufsz - 1\<close> characters are stored.
\<close>

definition snprintf_0u :: "nat \<Rightarrow> int \<Rightarrow> u32 \<Rightarrow> string" where
  "snprintf_0u bufsz width frame =
     (let ds = dec_digits (unat frame);
          out = (if 0 \<le> width then replicate (nat width - length ds) (CHR ''0'') @ ds
                 else ds @ replicate (nat (- width) - length ds) (CHR '' ''))
      in take (bufsz - 1) out)"

text \<open>\<open>name.replace(pos, len, buf)\<close> for \<open>pos + len \<le> name.size()\<close>.\<close>

definition replace :: "string \<Rightarrow> nat \<Rightarrow> nat \<Rightarrow> string \<Rightarrow> string" where
  "replace s pos len buf = take pos s @ buf @ drop (pos + len) s"

definition output_path :: "string \<Rightarrow> u32 \<Rightarrow> string" where
  "output_path output frame =
     (case find_last_of output (CHR ''#'') of
        None \<Rightarrow> output
      | Some end \<Rightarrow>
          if frame \<noteq> no_frame then
            (let begin = hash_begin output end;
                 num = end - begin + 1;
                 buf = snprintf_0u 32 (sint (word_of_nat num :: 32 word)) frame
             in replace output begin num buf)
          else output)"

section \<open>Processing one frame group\<close>

text \<open>
  Lines 139-184. \<open>headers[0]\<close> and \<open>images[0]\<close> on an empty vector are undefined
  behaviour: the result is \<open>None\<close> then.
\<close>

definition save_frame ::
  "('v, 'h, 'd, 'i) codec \<Rightarrow> ('h, 'd, 'i) frame_locals \<Rightarrow> u32 \<Rightarrow> ('h, 'd, 'i) exrtool_run
   \<Rightarrow> (bool \<times> ('h, 'd, 'i) exrtool_run) option" where
  "save_frame cd l frame run =
     (case (headers l, imgs l) of
        (header0 # _, image0 # _) \<Rightarrow>
          (let channel_types = map pixel_type (chans l);
               header = header0\<lparr>header_channels := chans l, pixel_types := channel_types,
                                 requested_pixel_types := channel_types\<rparr>;
               img = image0\<lparr>images := datas l\<rparr>;
               path = output_path (output_name run) frame;
               run1 = run\<lparr>save_calls := save_calls run @ [(path, img, header)]\<rparr>
           in case SaveEXRImageToFile cd img header path of
                Some err \<Rightarrow> Some (False, run_error ImageSaveError run1)
              | None \<Rightarrow> Some (True, run1))
      | _ \<Rightarrow> None)"

definition process_frame ::
  "('v, 'h, 'd, 'i) codec \<Rightarrow> ('h, 'd, 'i) exrtool_run \<Rightarrow> u32 \<Rightarrow> exrtool_run_file list
   \<Rightarrow> (bool \<times> ('h, 'd, 'i) exrtool_run) option" where
  "process_frame cd run frame fs =
     (case decode_files cd fs \<lparr>headers = [], imgs = [], chans = [], datas = []\<rparr> run of
        (ok, l, run1) \<Rightarrow>
          (case (if ok \<and> length (chans l) = 0
                 then Some (False, run_error (NoChannelsError frame) run1)
                 else if ok then save_frame cd l frame run1
                 else Some (False, run1)) of
             None \<Rightarrow> None
           | Some (ok2, run2) \<Rightarrow> Some (ok2, progress_add run2)))"

section \<open>Grouping and the worker threads (lines 196-267)\<close>

text \<open>
  \<open>frames[frame].push_back(rf)\<close> on the \<open>std::map\<close>, kept as the list of its entries
  in the order of iteration, ascending by key.
\<close>

fun map_push ::
  "u32 \<Rightarrow> exrtool_run_file \<Rightarrow> (u32 \<times> exrtool_run_file list) list
   \<Rightarrow> (u32 \<times> exrtool_run_file list) list" where
  "map_push k v [] = [(k, [v])]"
| "map_push k v ((k', vs) # m) =
     (if k' < k then (k', vs) # map_push k v m
      else if k' = k then (k', vs @ [v]) # m
      else (k, [v]) # (k', vs) # m)"

definition make_run_file :: "exrtool_file \<Rightarrow> exrtool_run_file" where
  "make_run_file file = \<lparr>name = file_name file, channels = set (file_channels file)\<rparr>"

text \<open>Lines 211-226: the loop over the input files.\<close>

fun group_files ::
  "(int \<Rightarrow> int) \<Rightarrow> exrtool_file list \<Rightarrow> (u32 \<times> exrtool_run_file list) list
   \<Rightarrow> (u32 \<times> exrtool_run_file list) list" where
  "group_files ovf [] m = m"
| "group_files ovf (file # rest) m =
     group_files ovf rest (map_push (strip_frame ovf (file_name file)) (make_run_file file) m)"

text \<open>Lines 233-241; \<open>cores\<close> is \<open>std::thread::hardware_concurrency()\<close>.\<close>

definition thread_count :: "nat \<Rightarrow> nat \<Rightarrow> nat" where
  "thread_count cores n = (if n = 0 then (if cores > 2 then cores - 2 else 1) else n)"

definition exrtool_process :: "(int \<Rightarrow> int) \<Rightarrow> nat \<Rightarrow> exrtool_input \<Rightarrow> ('h, 'd, 'i) exrtool_run" where
  "exrtool_process ovf cores inp =
     \<lparr>frames = group_files ovf (files inp) [],
      output_name = output_file inp,
      input = inp,
      a_frames_started = 0,
      a_progress = 0,
      a_threads_done = 0,
      threads = replicate (thread_count cores (num_threads inp)) False,
      errors = [],
      save_calls = [],
      progress_calls = []\<rparr>"

definition process_next_frame ::
  "('v, 'h, 'd, 'i) codec \<Rightarrow> ('h, 'd, 'i) exrtool_run \<Rightarrow> (bool \<times> ('h, 'd, 'i) exrtool_run) option" where
  "process_next_frame cd run =
     (let ix = a_frames_started run;
          run1 = run\<lparr>a_frames_started := ix + 1\<rparr>
      in if unat ix \<ge> length (frames run) then Some (False, run1)
         else (case frames run ! unat ix of (frame, fs) \<Rightarrow> process_frame cd run1 frame fs))"

definition notify :: "progress_call \<Rightarrow> ('h, 'd, 'i) exrtool_run \<Rightarrow> ('h, 'd, 'i) exrtool_run" where
  "notify c run =
     (if progress_fn (input run) then run\<lparr>progress_calls := progress_calls run @ [c]\<rparr> else run)"

text \<open>
  One turn of the loop of worker thread \<open>t\<close> (lines 244-254): the thread claims an index
  and processes it, then either notifies and stays in the loop, or leaves the loop, counts
  itself done and notifies. The accesses of a turn to the shared state are atomic
  increments and appends under the mutex, so a turn is taken as one step; the threads
  interleave turn by turn. A thread that has returned takes no step.
\<close>

definition worker_step ::
  "('v, 'h, 'd, 'i) codec \<Rightarrow> nat \<Rightarrow> ('h, 'd, 'i) exrtool_run \<Rightarrow> ('h, 'd, 'i) exrtool_run option" where
  "worker_step cd t run =
     (if t \<ge> length (threads run) \<or> threads run ! t then Some run
      else (case process_next_frame cd run of
              None \<Rightarrow> None
            | Some (go, run1) \<Rightarrow>
                if go then Some (notify (InLoop t (unat (a_frames_started run))) run1)
                else Some (notify (AtExit t)
                       (run1\<lparr>a_threads_done := a_threads_done run1 + 1,
                             threads := (threads run1)[t := True]\<rparr>))))"

text \<open>A schedule is the order in which the threads take their turns.\<close>

fun run_schedule ::
  "('v, 'h, 'd, 'i) codec \<Rightarrow> nat list \<Rightarrow> ('h, 'd, 'i) exrtool_run \<Rightarrow> ('h, 'd, 'i) exrtool_run option" where
  "run_schedule cd [] run = Some run"
| "run_schedule cd (t # ts) run =
     (case worker_step cd t run of None \<Rightarrow> None | Some run1 \<Rightarrow> run_schedule cd ts run1)"

text \<open>\<open>exrtool_poll\<close>: completion, done units and max units.\<close>

definition exrtool_poll :: "('h, 'd, 'i) exrtool_run \<Rightarrow> bool \<times> nat \<times> nat" where
  "exrtool_poll run =
     (unat (a_threads_done run) = length (threads run),
      unat (a_progress run),
      length (files (input run)) + length (frames run))"

section \<open>Invariants used in the proofs\<close>

text \<open>
  The files of one frame number, in submission order, and the state of the map after the
  files \<open>fs\<close> have been pushed.
\<close>

definition frame_files :: "(int \<Rightarrow> int) \<Rightarrow> exrtool_file list \<Rightarrow> u32 \<Rightarrow> exrtool_run_file list" where
  "frame_files ovf fs k = map make_run_file (filter (\<lambda>f. strip_frame ovf (file_name f) = k) fs)"

definition group_inv ::
  "(int \<Rightarrow> int) \<Rightarrow> exrtool_file list \<Rightarrow> (u32 \<times> exrtool_run_file list) list \<Rightarrow> bool" where
  "group_inv ovf fs m \<longleftrightarrow>
     sorted_wrt (<) (map fst m) \<and>
     (\<forall>k. map_of m k = (if frame_files ovf fs k = [] then None else Some (frame_files ovf fs k)))"

text \<open>
  The channel table as a finite map from names to entries, its invariant (names strictly
  ascending, as many data pointers as channels), and the merge of a list of planes, one
  after the other.
\<close>

definition table_lookup ::
  "EXRChannelInfo list \<times> 'd list \<Rightarrow> string \<Rightarrow> (EXRChannelInfo \<times> 'd) option" where
  "table_lookup t = (case t of (cs, ds) \<Rightarrow> map_of (zip (map chan_name cs) (zip cs ds)))"

definition table_inv :: "EXRChannelInfo list \<times> 'd list \<Rightarrow> bool" where
  "table_inv t = (case t of (cs, ds) \<Rightarrow> sorted_wrt (<) (map chan_name cs) \<and> length ds = length cs)"

fun merge_planes ::
  "(EXRChannelInfo \<times> 'd) list \<Rightarrow> EXRChannelInfo list \<times> 'd list \<Rightarrow> EXRChannelInfo list \<times> 'd list" where
  "merge_planes [] t = t"
| "merge_planes ((chan, data) # ps) t = merge_planes ps (merge_channel chan data t)"

text \<open>
  What the three decode calls of one turn of the file loop give: the error that is recorded,
  or the header and the image. \<open>file_planes\<close> are the channels of a decoded file that
  the file's request selects, with their planes, in the header's order; \<open>group_planes\<close>
  are those of a list of files, in the order of the files.
\<close>

definition decode_outcome ::
  "('v, 'h, 'd, 'i) codec \<Rightarrow> exrtool_run_file \<Rightarrow> error + ('h EXRHeader \<times> ('d, 'i) EXRImage)" where
  "decode_outcome cd f =
     (case ParseEXRVersionFromFile cd (name f) of
        None \<Rightarrow> Inl VersionParseError
      | Some version \<Rightarrow>
          (case ParseEXRHeaderFromFile cd version (name f) of
             Inl err \<Rightarrow> Inl HeaderParseError
           | Inr header \<Rightarrow>
               (case LoadEXRImageFromFile cd header (name f) of
                  Inl err \<Rightarrow> Inl ImageLoadError
                | Inr img \<Rightarrow> Inr (header, img))))"

definition decodes :: "('v, 'h, 'd, 'i) codec \<Rightarrow> exrtool_run_file \<Rightarrow> bool" where
  "decodes cd f = (case decode_outcome cd f of Inl e \<Rightarrow> False | Inr r \<Rightarrow> True)"

definition file_planes ::
  "('v, 'h, 'd, 'i) codec \<Rightarrow> exrtool_run_file \<Rightarrow> (EXRChannelInfo \<times> 'd) list" where
  "file_planes cd f =
     (case decode_outcome cd f of
        Inl e \<Rightarrow> []
      | Inr r \<Rightarrow> filter (\<lambda>p. use_channel f (chan_name (fst p)))
                  (zip (header_channels (fst r)) (images (snd r))))"

definition group_planes ::
  "('v, 'h, 'd, 'i) codec \<Rightarrow> exrtool_run_file list \<Rightarrow> (EXRChannelInfo \<times> 'd) list" where
  "group_planes cd fs = concat (map (file_planes cd) fs)"

text \<open>
  The error that the file loop records: that of the first file that does not decode, if
  there is one. \<open>merged_table\<close> is the channel table that the loop builds from the
  empty one when the files decode.
\<close>

definition decode_errors :: "('v, 'h, 'd, 'i) codec \<Rightarrow> exrtool_run_file list \<Rightarrow> error list" where
  "decode_errors cd fs =
     (case dropWhile (decodes cd) fs of [] \<Rightarrow> [] | f # rest \<Rightarrow> [projl (decode_outcome cd f)])"

definition merged_table ::
  "('v, 'h, 'd, 'i) codec \<Rightarrow> exrtool_run_file list \<Rightarrow> EXRChannelInfo list \<times> 'd list" where
  "merged_table cd fs = merge_planes (group_planes cd fs) ([], [])"

text \<open>
  The progress units of a frame group. \<open>decode_attempts\<close> is the number of files whose
  decode is attempted: the files before the first one that fails, and that one.
  \<open>frame_units\<close> is what \<open>process_frame\<close> adds to the counter for the group,
  \<open>step_units\<close> what one turn of a worker adds, and \<open>schedule_units\<close> what the
  turns of a schedule add.
\<close>

definition decode_attempts :: "('v, 'h, 'd, 'i) codec \<Rightarrow> exrtool_run_file list \<Rightarrow> nat" where
  "decode_attempts cd fs =
     length (takeWhile (decodes cd) fs) + (if list_all (decodes cd) fs then 0 else 1)"

definition frame_units :: "('v, 'h, 'd, 'i) codec \<Rightarrow> exrtool_run_file list \<Rightarrow> nat" where
  "frame_units cd fs = decode_attempts cd fs + (if list_all (decodes cd) fs then 1 else 0)"

definition step_units :: "('v, 'h, 'd, 'i) codec \<Rightarrow> nat \<Rightarrow> ('h, 'd, 'i) exrtool_run \<Rightarrow> nat" where
  "step_units cd t run =
     (if t < length (threads run) \<and> \<not> threads run ! t \<and>
         unat (a_frames_started run) < length (frames run)
      then frame_units cd (snd (frames run ! unat (a_frames_started run)))
      else 0)"

fun schedule_units ::
  "('v, 'h, 'd, 'i) codec \<Rightarrow> nat list \<Rightarrow> ('h, 'd, 'i) exrtool_run \<Rightarrow> nat" where
  "schedule_units cd [] run = 0"
| "schedule_units cd (t # ts) run =
     step_units cd t run +
     (case worker_step cd t run of None \<Rightarrow> 0 | Some run1 \<Rightarrow> schedule_units cd ts run1)"

section \<open>An example run\<close>

text \<open>
  A codec that knows two files of frame 7: \<open>a.0007.exr\<close> with the channels G and R,
  and \<open>b.0007.exr\<close> with the channels B and R. Every other file fails at the version,
  and every save succeeds. The input submits a file that does not decode, of frame 1, and
  the two files of frame 7.
\<close>

definition ex_codec :: "(unit, string, string, string) codec" where
  "ex_codec =
     \<lparr>ParseEXRVersionFromFile =
        (\<lambda>n. if n = ''a.0007.exr'' \<or> n = ''b.0007.exr'' then Some () else None),
      ParseEXRHeaderFromFile =
        (\<lambda>v n. if n = ''a.0007.exr''
           then Inr \<lparr>header_channels = [\<lparr>chan_name = ''G'', pixel_type = 1\<rparr>,
                                         \<lparr>chan_name = ''R'', pixel_type = 1\<rparr>],
                     pixel_types = [1, 1], requested_pixel_types = [1, 1],
                     header_other = ''header of a''\<rparr>
           else Inr \<lparr>header_channels = [\<lparr>chan_name = ''B'', pixel_type = 2\<rparr>,
                                         \<lparr>chan_name = ''R'', pixel_type = 2\<rparr>],
                     pixel_types = [2, 2], requested_pixel_types = [2, 2],
                     header_other = ''header of b''\<rparr>),
      LoadEXRImageFromFile =
        (\<lambda>h n. if n = ''a.0007.exr''
           then Inr \<lparr>images = [''a.G'', ''a.R''], image_other = ''image of a''\<rparr>
           else Inr \<lparr>images = [''b.B'', ''b.R''], image_other = ''image of b''\<rparr>),
      SaveEXRImageToFile = (\<lambda>i h n. None)\<rparr>"

definition ex_file_a :: exrtool_run_file where
  "ex_file_a = \<lparr>name = ''a.0007.exr'', channels = {''R'', ''G''}\<rparr>"

definition ex_file_b :: exrtool_run_file where
  "ex_file_b = \<lparr>name = ''b.0007.exr'', channels = {''B'', ''R''}\<rparr>"

definition ex_file_bad :: exrtool_run_file where
  "ex_file_bad = \<lparr>name = ''bad.0001.exr'', channels = {''R''}\<rparr>"

text \<open>The two files of frame 7 with a request for a channel that neither has.\<close>

definition ex_file_a_z :: exrtool_run_file where
  "ex_file_a_z = \<lparr>name = ''a.0007.exr'', channels = {''Z''}\<rparr>"

definition ex_file_b_z :: exrtool_run_file where
  "ex_file_b_z = \<lparr>name = ''b.0007.exr'', channels = {''Z''}\<rparr>"

definition ex_input :: "nat \<Rightarrow> exrtool_input" where
  "ex_input n =
     \<lparr>output_file = ''out.####.exr'',
      files = [\<lparr>file_name = ''bad.0001.exr'', file_channels = [''R'']\<rparr>,
               \<lparr>file_name = ''a.0007.exr'', file_channels = [''R'', ''G'']\<rparr>,
               \<lparr>file_name = ''b.0007.exr'', file_channels = [''B'', ''R'']\<rparr>],
      num_threads = n,
      progress_fn = True\<rparr>"

definition ex_run :: "nat \<Rightarrow> (string, string, string) exrtool_run" where
  "ex_run n = exrtool_process atoi_ovf_saturate 8 (ex_input n)"

section \<open>Properties of frame-number extraction\<close>


lemma scan_end_append: "n \<le> length xs \<Longrightarrow> scan_end (xs @ ys) n = scan_end xs n"
  by (induction n) (auto simp: nth_append)

lemma scan_end_skip:
  "\<forall>c\<in>set suf. \<not> isdigit c \<Longrightarrow> scan_end (xs @ suf) (length xs + length suf) = scan_end xs (length xs)"
proof (induction suf rule: rev_induct)
  case Nil
  then show ?case by simp
next
  case (snoc c suf)
  have "scan_end (xs @ suf @ [c]) (Suc (length xs + length suf))
        = scan_end ((xs @ suf) @ [c]) (length xs + length suf)"
    using snoc.prems by (simp add: nth_append)
  also have "\<dots> = scan_end (xs @ suf) (length xs + length suf)"
    by (rule scan_end_append) simp
  finally show ?case using snoc by simp
qed

lemma scan_end_digit: "isdigit d \<Longrightarrow> scan_end (xs @ [d]) (Suc (length xs)) = Suc (length xs)"
  by simp

lemma scan_end_no_digit: "\<forall>c\<in>set s. \<not> isdigit c \<Longrightarrow> scan_end s (length s) = 0"
  using scan_end_skip [of s "[]"] by simp

lemma scan_begin_append: "n \<le> length xs \<Longrightarrow> scan_begin (xs @ ys) n = scan_begin xs n"
  by (induction n) (auto simp: nth_append)

lemma scan_begin_skip:
  "\<forall>c\<in>set ds. isdigit c \<Longrightarrow> scan_begin (xs @ ds) (length xs + length ds) = scan_begin xs (length xs)"
proof (induction ds rule: rev_induct)
  case Nil
  then show ?case by simp
next
  case (snoc c ds)
  have "scan_begin (xs @ ds @ [c]) (Suc (length xs + length ds))
        = scan_begin ((xs @ ds) @ [c]) (length xs + length ds)"
    using snoc.prems by (simp add: nth_append)
  also have "\<dots> = scan_begin (xs @ ds) (length xs + length ds)"
    by (rule scan_begin_append) simp
  finally show ?case using snoc by simp
qed

lemma scan_begin_stop:
  "pre = [] \<or> \<not> isdigit (last pre) \<Longrightarrow> scan_begin pre (length pre) = length pre"
  by (cases pre rule: rev_cases) auto

lemma digits_val_foldl:
  "\<forall>c\<in>set ds. isdigit c \<Longrightarrow> suf = [] \<or> \<not> isdigit (hd suf) \<Longrightarrow>
   digits_val acc (ds @ suf) = foldl (\<lambda>a c. a * 10 + ((of_char c :: nat) - 48)) acc ds"
proof (induction ds arbitrary: acc)
  case Nil
  then show ?case by (cases suf) auto
next
  case (Cons d ds)
  then show ?case by simp
qed

lemma isdigit_not_special: "isdigit c \<Longrightarrow> \<not> isspace c \<and> c \<noteq> CHR ''-'' \<and> c \<noteq> CHR ''+''"
  by (auto simp: isdigit_def isspace_def)

lemma atoi_digits:
  assumes "ds \<noteq> []" "\<forall>c\<in>set ds. isdigit c" "suf = [] \<or> \<not> isdigit (hd suf)"
  shows "atoi ovf (ds @ suf) =
         (if int (decimal ds) \<le> INT_MAX then int (decimal ds) else ovf (int (decimal ds)))"
proof -
  obtain d ds' where ds: "ds = d # ds'" using assms(1) by (cases ds) auto
  have d: "isdigit d" using assms(2) ds by simp
  have dv: "digits_val 0 (ds @ suf) = decimal ds"
    unfolding decimal_def by (rule digits_val_foldl [OF assms(2,3)])
  have "dropWhile isspace (ds @ suf) = ds @ suf"
    using isdigit_not_special [OF d] ds by simp
  then show ?thesis
    using isdigit_not_special [OF d] dv ds
    by (simp add: atoi_def Let_def INT_MIN_def del: digits_val.simps)
qed

lemma strip_frame_no_digit:
  "\<forall>c\<in>set s. \<not> isdigit c \<Longrightarrow> strip_frame ovf s = no_frame"
  by (simp add: strip_frame_def scan_end_no_digit)

lemma strip_frame_run:
  assumes ds: "ds \<noteq> []" "\<forall>c\<in>set ds. isdigit c"
    and suf: "\<forall>c\<in>set suf. \<not> isdigit c"
    and pre: "pre = [] \<or> \<not> isdigit (last pre)"
  shows "strip_frame ovf (pre @ ds @ suf) =
         word_of_int (if int (decimal ds) \<le> INT_MAX then int (decimal ds) else ovf (int (decimal ds)))"
proof -
  obtain ds' d where dsd: "ds = ds' @ [d]" using ds(1) by (cases ds rule: rev_cases) auto
  have d: "isdigit d" using ds(2) dsd by simp
  have e: "scan_end (pre @ ds @ suf) (length (pre @ ds @ suf)) = length pre + length ds"
  proof -
    have "scan_end ((pre @ ds) @ suf) (length (pre @ ds) + length suf) = scan_end (pre @ ds) (length (pre @ ds))"
      by (rule scan_end_skip [OF suf])
    also have "\<dots> = length pre + length ds"
      using scan_end_digit [OF d, of "pre @ ds'"] dsd by simp
    finally show ?thesis by (simp add: add.assoc)
  qed
  have b: "scan_begin (pre @ ds @ suf) (length pre + length ds) = length pre"
  proof -
    have "scan_begin ((pre @ ds) @ suf) (length pre + length ds) = scan_begin (pre @ ds) (length pre + length ds)"
      by (rule scan_begin_append) simp
    also have "\<dots> = scan_begin pre (length pre)" by (rule scan_begin_skip [OF ds(2)])
    also have "\<dots> = length pre" by (rule scan_begin_stop [OF pre])
    finally show ?thesis by simp
  qed
  have suf': "suf = [] \<or> \<not> isdigit (hd suf)" using suf by (cases suf) auto
  show ?thesis
    unfolding strip_frame_def Let_def e b
    using ds(1) atoi_digits [OF ds suf', of ovf] by simp
qed


lemma word_of_small_not_no_frame:
  assumes "0 \<le> v" "v \<le> INT_MAX"
  shows "(word_of_int v :: u32) \<noteq> no_frame"
proof
  assume "(word_of_int v :: u32) = no_frame"
  then have "uint (word_of_int v :: u32) = uint (- 1 :: u32)" by (simp add: no_frame_def)
  moreover have "uint (word_of_int v :: u32) = v"
    using assms by (simp add: uint_word_of_int INT_MAX_def)
  moreover have "uint (- 1 :: u32) = 4294967295"
    by (simp add: unsigned_minus_1_eq_mask mask_eq_exp_minus_1)
  ultimately show False using assms by (simp add: INT_MAX_def)
qed

section \<open>Claims on frame-number extraction\<close>

text \<open>
  Claim C7, as the code has it. A name without a digit gives the sentinel. In a name
  \<open>pre @ ds @ suf\<close>, where \<open>suf\<close> has no digit, \<open>ds\<close> is a non-empty run
  of digits and \<open>pre\<close> does not end in a digit, the run \<open>ds\<close> is the one parsed,
  whatever digits \<open>pre\<close> holds; when its value is at most \<open>INT_MAX\<close>, the range on
  which \<open>atoi\<close> is defined, the result is that value and is not the sentinel. So
  \<open>beauty.1023.exr\<close> gives 1023, \<open>beauty.exr\<close> the sentinel and
  \<open>a7b22.exr\<close> gives 22, with every C library.
\<close>

theorem strip_frame_rightmost_run:
  "((\<forall>c\<in>set s. \<not> isdigit c) \<longrightarrow> strip_frame ovf s = no_frame) \<and>
   (ds \<noteq> [] \<and> (\<forall>c\<in>set ds. isdigit c) \<and> (\<forall>c\<in>set suf. \<not> isdigit c) \<and>
    (pre = [] \<or> \<not> isdigit (last pre)) \<and> int (decimal ds) \<le> INT_MAX \<longrightarrow>
      strip_frame ovf (pre @ ds @ suf) = of_nat (decimal ds) \<and>
      strip_frame ovf (pre @ ds @ suf) \<noteq> no_frame) \<and>
   strip_frame ovf ''beauty.1023.exr'' = 1023 \<and>
   strip_frame ovf ''beauty.exr'' = no_frame \<and>
   strip_frame ovf ''a7b22.exr'' = 22"
proof (intro conjI impI)
  assume "\<forall>c\<in>set s. \<not> isdigit c"
  then show "strip_frame ovf s = no_frame" by (rule strip_frame_no_digit)
next
  assume a: "ds \<noteq> [] \<and> (\<forall>c\<in>set ds. isdigit c) \<and> (\<forall>c\<in>set suf. \<not> isdigit c) \<and>
    (pre = [] \<or> \<not> isdigit (last pre)) \<and> int (decimal ds) \<le> INT_MAX"
  then have r: "strip_frame ovf (pre @ ds @ suf) = word_of_int (int (decimal ds))"
    using strip_frame_run [of ds suf pre ovf] by simp
  then show "strip_frame ovf (pre @ ds @ suf) = of_nat (decimal ds)" by simp
  show "strip_frame ovf (pre @ ds @ suf) \<noteq> no_frame"
    unfolding r using a by (intro word_of_small_not_no_frame) simp_all
next
  show "strip_frame ovf ''beauty.1023.exr'' = 1023"
    by (simp add: strip_frame_def atoi_def isdigit_def isspace_def INT_MAX_def INT_MIN_def Let_def)
  show "strip_frame ovf ''beauty.exr'' = no_frame"
    by (simp add: strip_frame_def isdigit_def Let_def)
  show "strip_frame ovf ''a7b22.exr'' = 22"
    by (simp add: strip_frame_def atoi_def isdigit_def isspace_def INT_MAX_def INT_MIN_def Let_def)
qed

theorem strip_frame_rightmost_run_witness:
  "strip_frame atoi_ovf_saturate (''shot_v2.'' @ ''0815'' @ ''.exr'') = 815 \<and>
   strip_frame atoi_ovf_saturate (''shot_v2.'' @ ''0815'' @ ''.exr'') \<noteq> no_frame \<and>
   strip_frame atoi_ovf_saturate ''render.exr'' = no_frame"
proof -
  have n: "\<forall>c\<in>set ''render.exr''. \<not> isdigit c" by (simp add: isdigit_def)
  have h: "''0815'' \<noteq> [] \<and> (\<forall>c\<in>set ''0815''. isdigit c) \<and> (\<forall>c\<in>set ''.exr''. \<not> isdigit c) \<and>
    (''shot_v2.'' = [] \<or> \<not> isdigit (last ''shot_v2.'')) \<and> int (decimal ''0815'') \<le> INT_MAX"
    by (simp add: isdigit_def decimal_def INT_MAX_def)
  have d: "decimal ''0815'' = 815" by (simp add: decimal_def)
  note t = strip_frame_rightmost_run [of "''render.exr''" atoi_ovf_saturate "''0815''" "''.exr''" "''shot_v2.''"]
  from t n have "strip_frame atoi_ovf_saturate ''render.exr'' = no_frame" by blast
  moreover from t h have "strip_frame atoi_ovf_saturate (''shot_v2.'' @ ''0815'' @ ''.exr'') = of_nat (decimal ''0815'')
      \<and> strip_frame atoi_ovf_saturate (''shot_v2.'' @ ''0815'' @ ''.exr'') \<noteq> no_frame" by blast
  ultimately show ?thesis unfolding d by (simp add: no_frame_def)
qed

text \<open>
  Above \<open>INT_MAX\<close> the claim C7 fails as it is written. With glibc on 64-bit Linux the
  name \<open>a7b4294967295.exr\<close> has a digit and yet gives the sentinel; with a saturating
  library the same name does not give the unsigned value 4294967295 of its digit run.
\<close>

theorem strip_frame_sentinel_with_digits:
  "strip_frame atoi_ovf_lp64 ''a7b4294967295.exr'' = no_frame \<and>
   isdigit (CHR ''5'') \<and> CHR ''5'' \<in> set ''a7b4294967295.exr'' \<and>
   strip_frame atoi_ovf_saturate ''a7b4294967295.exr'' \<noteq> 4294967295"
  by (simp add: strip_frame_def atoi_def isdigit_def isspace_def INT_MAX_def INT_MIN_def Let_def
      atoi_ovf_lp64_def atoi_ovf_saturate_def no_frame_def)

text \<open>
  Claim C4, as the code has it. The sentinel is the 32-bit pattern \<open>~0u\<close>, not a
  separate tag. A name with a digit run gives the sentinel exactly when the run's value
  is above \<open>INT_MAX\<close> and the C library's \<open>atoi\<close> returns \<open>-1\<close> for it; so
  every frame number up to \<open>INT_MAX\<close> is distinct from the sentinel.
\<close>

theorem strip_frame_sentinel_iff:
  assumes "ds \<noteq> []" "\<forall>c\<in>set ds. isdigit c" "\<forall>c\<in>set suf. \<not> isdigit c"
    "pre = [] \<or> \<not> isdigit (last pre)"
  shows "strip_frame ovf (pre @ ds @ suf) = no_frame \<longleftrightarrow>
         INT_MAX < int (decimal ds) \<and> (word_of_int (ovf (int (decimal ds))) :: u32) = - 1"
proof (cases "int (decimal ds) \<le> INT_MAX")
  case True
  then show ?thesis
    using strip_frame_run [OF assms, of ovf] word_of_small_not_no_frame [of "int (decimal ds)"]
    by simp
next
  case False
  then show ?thesis
    using strip_frame_run [OF assms, of ovf] by (simp add: no_frame_def)
qed

theorem strip_frame_sentinel_iff_witness:
  "strip_frame atoi_ovf_saturate (''shot.'' @ ''4294967295'' @ ''.exr'') \<noteq> no_frame \<and>
   strip_frame atoi_ovf_lp64 (''shot.'' @ ''0042'' @ ''.exr'') \<noteq> no_frame"
proof -
  have h1: "''4294967295'' \<noteq> []" "\<forall>c\<in>set ''4294967295''. isdigit c"
    and h2: "''0042'' \<noteq> []" "\<forall>c\<in>set ''0042''. isdigit c"
    and s: "\<forall>c\<in>set ''.exr''. \<not> isdigit c"
    and p: "''shot.'' = [] \<or> \<not> isdigit (last ''shot.'')"
    by (simp_all add: isdigit_def)
  have d: "decimal ''4294967295'' = 4294967295" "decimal ''0042'' = 42" by (simp_all add: decimal_def)
  show ?thesis
    using strip_frame_sentinel_iff [OF h1 s p, of atoi_ovf_saturate]
      strip_frame_sentinel_iff [OF h2 s p, of atoi_ovf_lp64] d
    by (simp add: atoi_ovf_saturate_def INT_MAX_def INT_MIN_def)
qed

text \<open>
  With glibc on 64-bit Linux the frame number 4294967295 and the sentinel are the same
  value: the claim C4 fails there as it is written.
\<close>

theorem sentinel_collision:
  "strip_frame atoi_ovf_lp64 ''beauty.4294967295.exr'' = strip_frame atoi_ovf_lp64 ''beauty.exr''"
  by (simp add: strip_frame_def atoi_def isdigit_def isspace_def INT_MAX_def INT_MIN_def Let_def
      atoi_ovf_lp64_def no_frame_def)

section \<open>The output path\<close>

lemma find_last_from_append: "n \<le> length xs \<Longrightarrow> find_last_from (xs @ ys) c n = find_last_from xs c n"
  by (induction n) (auto simp: nth_append)

lemma find_last_from_skip:
  "c \<notin> set suf \<Longrightarrow> find_last_from (xs @ suf) c (length xs + length suf) = find_last_from xs c (length xs)"
proof (induction suf rule: rev_induct)
  case Nil
  then show ?case by simp
next
  case (snoc x suf)
  have "(xs @ suf @ [x]) ! (length xs + length suf) = x"
    by (simp add: nth_append)
  moreover have "x \<noteq> c" using snoc.prems by auto
  ultimately have "find_last_from (xs @ suf @ [x]) c (Suc (length xs + length suf))
        = find_last_from ((xs @ suf) @ [x]) c (length xs + length suf)"
    by simp
  also have "\<dots> = find_last_from (xs @ suf) c (length xs + length suf)"
    by (rule find_last_from_append) simp
  finally show ?case using snoc by simp
qed

lemma find_last_of_none: "c \<notin> set s \<Longrightarrow> find_last_of s c = None"
  using find_last_from_skip [of c s "[]"] by (simp add: find_last_of_def)

lemma find_last_of_run:
  assumes "c \<notin> set suf"
  shows "find_last_of (pre @ replicate (Suc n) c @ suf) c = Some (length pre + n)"
proof -
  have "find_last_from ((pre @ replicate (Suc n) c) @ suf) c (length (pre @ replicate (Suc n) c) + length suf)
        = find_last_from (pre @ replicate (Suc n) c) c (length (pre @ replicate (Suc n) c))"
    by (rule find_last_from_skip [OF assms])
  also have "\<dots> = find_last_from ((pre @ replicate n c) @ [c]) c (Suc (length pre + n))"
    by (simp add: replicate_append_same)
  also have "\<dots> = Some (length pre + n)"
    by (simp add: nth_append)
  finally show ?thesis by (simp add: find_last_of_def add.assoc)
qed

lemma hash_begin_append: "n \<le> length xs \<Longrightarrow> hash_begin (xs @ ys) n = hash_begin xs n"
  by (induction n) (auto simp: nth_append)

lemma hash_begin_skip:
  "hash_begin (xs @ replicate n (CHR ''#'')) (length xs + n) = hash_begin xs (length xs)"
proof (induction n)
  case 0
  then show ?case by simp
next
  case (Suc n)
  have "hash_begin (xs @ replicate (Suc n) (CHR ''#'')) (length xs + Suc n)
        = hash_begin ((xs @ replicate n (CHR ''#'')) @ [CHR ''#'']) (Suc (length xs + n))"
    by (simp add: replicate_append_same)
  also have "\<dots> = hash_begin ((xs @ replicate n (CHR ''#'')) @ [CHR ''#'']) (length xs + n)"
    by (simp add: nth_append)
  also have "\<dots> = hash_begin (xs @ replicate n (CHR ''#'')) (length xs + n)"
    by (rule hash_begin_append) simp
  finally show ?case using Suc by simp
qed

lemma hash_begin_stop:
  "pre = [] \<or> last pre \<noteq> CHR ''#'' \<Longrightarrow> hash_begin pre (length pre) = length pre"
  by (cases pre rule: rev_cases) auto

lemma hash_begin_run:
  assumes "pre = [] \<or> last pre \<noteq> CHR ''#''"
  shows "hash_begin (pre @ replicate (Suc n) (CHR ''#'') @ suf) (length pre + n) = length pre"
proof -
  have "hash_begin ((pre @ replicate n (CHR ''#'')) @ (CHR ''#'' # suf)) (length pre + n)
        = hash_begin (pre @ replicate n (CHR ''#'')) (length pre + n)"
    by (rule hash_begin_append) simp
  also have "\<dots> = length pre"
    using hash_begin_skip [of pre n] hash_begin_stop [OF assms] by simp
  finally show ?thesis by (simp add: replicate_app_Cons_same)
qed

lemma length_dec_digits: "0 < k \<Longrightarrow> n < 10 ^ k \<Longrightarrow> length (dec_digits n) \<le> k"
proof (induction n arbitrary: k rule: dec_digits.induct)
  case (1 n)
  show ?case
  proof (cases "n < 10")
    case True
    then show ?thesis using "1.prems" by (subst dec_digits.simps) simp
  next
    case False
    then obtain j where k: "k = Suc j" "0 < j"
      using "1.prems" by (cases k; cases "k - 1") auto
    have "n div 10 < 10 ^ j" using "1.prems" k by (simp add: less_mult_imp_div_less mult.commute)
    then have "length (dec_digits (n div 10)) \<le> j" using "1.IH" False k by simp
    then show ?thesis using False k by (subst dec_digits.simps) simp
  qed
qed

lemma length_dec_digits_u32: "length (dec_digits (unat (frame :: u32))) \<le> 10"
proof -
  have "unat frame < 2 ^ 32" using unsigned_less [of frame] by simp
  then have "unat frame < 10 ^ 10" by simp
  then show ?thesis by (intro length_dec_digits) simp_all
qed

lemma snprintf_0u_pad:
  assumes "n \<le> 31"
  shows "snprintf_0u 32 (sint (word_of_nat n :: 32 word)) frame
         = replicate (n - length (dec_digits (unat frame))) (CHR ''0'') @ dec_digits (unat frame)"
proof -
  have "sint (word_of_nat n :: 32 word) = (int n + 2 ^ 31) mod 2 ^ 32 - 2 ^ 31"
    using int_word_sint [of "int n", where 'a = 32] by simp
  also have "\<dots> = int n" using assms by simp
  finally have "sint (word_of_nat n :: 32 word) = int n" .
  then show ?thesis
    using assms length_dec_digits_u32 [of frame] by (simp add: snprintf_0u_def Let_def)
qed

lemma output_path_run:
  assumes "CHR ''#'' \<notin> set suf" "pre = [] \<or> last pre \<noteq> CHR ''#''" "0 < n" "n \<le> 31"
    "frame \<noteq> no_frame"
  shows "output_path (pre @ replicate n (CHR ''#'') @ suf) frame
         = pre @ replicate (n - length (dec_digits (unat frame))) (CHR ''0'')
             @ dec_digits (unat frame) @ suf"
proof -
  obtain m where n: "n = Suc m" using assms(3) by (cases n) auto
  have f: "find_last_of (pre @ replicate (Suc m) (CHR ''#'') @ suf) (CHR ''#'') = Some (length pre + m)"
    by (rule find_last_of_run [OF assms(1)])
  have b: "hash_begin (pre @ replicate (Suc m) (CHR ''#'') @ suf) (length pre + m) = length pre"
    by (rule hash_begin_run [OF assms(2)])
  have p: "snprintf_0u 32 (sint (word_of_nat (Suc m) :: 32 word)) frame
         = replicate (Suc m - length (dec_digits (unat frame))) (CHR ''0'') @ dec_digits (unat frame)"
    using snprintf_0u_pad [of "Suc m" frame] assms(4) n by simp
  have num: "length pre + m - length pre + 1 = Suc m" by simp
  have "output_path (pre @ replicate (Suc m) (CHR ''#'') @ suf) frame
        = replace (pre @ replicate (Suc m) (CHR ''#'') @ suf) (length pre) (Suc m)
            (replicate (Suc m - length (dec_digits (unat frame))) (CHR ''0'') @ dec_digits (unat frame))"
    using assms(5) by (simp only: output_path_def f option.case b Let_def num p) simp
  also have "\<dots> = pre @ replicate (Suc m - length (dec_digits (unat frame))) (CHR ''0'')
             @ dec_digits (unat frame) @ suf"
    by (simp add: replace_def)
  finally show ?thesis unfolding n .
qed

lemma output_path_verbatim:
  "frame = no_frame \<or> CHR ''#'' \<notin> set output \<Longrightarrow> output_path output frame = output"
  by (auto simp: output_path_def find_last_of_none split: option.splits)

lemma output_path_padded: "output_path ''out.####.exr'' 7 = ''out.0007.exr''"
proof -
  have "find_last_of ''out.####.exr'' (CHR ''#'') = Some 7" by code_simp
  moreover have "hash_begin ''out.####.exr'' 7 = 4" by code_simp
  moreover have "sint (word_of_nat (7 - 4 + 1) :: 32 word) = 4" by simp
  moreover have "snprintf_0u 32 4 7 = ''0007''" by code_simp
  moreover have "replace ''out.####.exr'' 4 (7 - 4 + 1) ''0007'' = ''out.0007.exr''"
    by (simp add: replace_def)
  ultimately show ?thesis by (simp add: output_path_def Let_def no_frame_def)
qed

text \<open>
  Claim C8 at a template whose run of \<open>#\<close> is 32 characters long, with frame 7. The
  claim asks for the frame number zero-padded to 32 characters, 31 zeros and then 7. The
  buffer of \<open>snprintf\<close> holds 31 characters, so the run is replaced by 31 zeros and
  the frame number is lost. For runs of at most 31 characters the code does what the claim
  says (\<open>output_path_run\<close>, \<open>output_path_verbatim\<close>, \<open>output_path_padded\<close>).
\<close>

theorem output_path_truncated:
  "output_path ''out.################################.exr'' 7
   = ''out.0000000000000000000000000000000.exr''"
proof -
  have "find_last_of ''out.################################.exr'' (CHR ''#'') = Some 35" by code_simp
  moreover have "hash_begin ''out.################################.exr'' 35 = 4" by code_simp
  moreover have "sint (word_of_nat (35 - 4 + 1) :: 32 word) = 32" by simp
  moreover have "snprintf_0u 32 32 7 = ''0000000000000000000000000000000''" by code_simp
  moreover have "replace ''out.################################.exr'' 4 (35 - 4 + 1)
      ''0000000000000000000000000000000'' = ''out.0000000000000000000000000000000.exr''"
    by (simp add: replace_def)
  ultimately show ?thesis by (simp add: output_path_def Let_def no_frame_def)
qed

section \<open>Grouping\<close>


lemma map_push_keys: "fst ` set (map_push k v m) = insert k (fst ` set m)"
  by (induction k v m rule: map_push.induct) auto

lemma map_push_sorted:
  "sorted_wrt (<) (map fst m) \<Longrightarrow> sorted_wrt (<) (map fst (map_push k v m))"
proof (induction k v m rule: map_push.induct)
  case (1 k v)
  then show ?case by simp
next
  case (2 k v k' vs m)
  show ?case
  proof (cases "k' < k")
    case True
    have "\<forall>x\<in>fst ` set (map_push k v m). k' < x"
      using "2.prems" True by (auto simp: map_push_keys)
    then show ?thesis using 2 True by auto
  next
    case False
    then show ?thesis using "2.prems" by (cases "k' = k") auto
  qed
qed

lemma map_of_sorted_less:
  "sorted_wrt (<) (map fst m) \<Longrightarrow> \<forall>x\<in>fst ` set m. (k :: u32) < x \<Longrightarrow> map_of m k = None"
  by (induction m) auto

lemma map_push_map_of:
  "sorted_wrt (<) (map fst m) \<Longrightarrow>
   map_of (map_push k v m) =
     (map_of m)(k \<mapsto> (case map_of m k of None \<Rightarrow> [v] | Some vs \<Rightarrow> vs @ [v]))"
proof (induction k v m rule: map_push.induct)
  case (1 k v)
  then show ?case by simp
next
  case (2 k v k' vs m)
  show ?case
  proof (cases "k' < k")
    case True
    then show ?thesis using 2 by (auto simp: fun_eq_iff)
  next
    case False
    show ?thesis
    proof (cases "k' = k")
      case True
      then show ?thesis by (auto simp: fun_eq_iff)
    next
      case ne: False
      then have "k < k'" using False by simp
      then have "\<forall>x\<in>fst ` set m. k < x" using "2.prems" by auto
      then have "map_of m k = None" using "2.prems" by (intro map_of_sorted_less) simp_all
      then show ?thesis using False ne by (auto simp: fun_eq_iff)
    qed
  qed
qed

lemma group_inv_push:
  assumes "group_inv ovf fs m"
  shows "group_inv ovf (fs @ [f]) (map_push (strip_frame ovf (file_name f)) (make_run_file f) m)"
proof -
  have s: "sorted_wrt (<) (map fst m)" using assms by (simp add: group_inv_def)
  have m: "\<And>k. map_of m k = (if frame_files ovf fs k = [] then None else Some (frame_files ovf fs k))"
    using assms by (simp add: group_inv_def)
  show ?thesis
    unfolding group_inv_def
    by (auto simp: map_push_sorted [OF s] map_push_map_of [OF s] m frame_files_def)
qed

lemma group_files_inv:
  "group_inv ovf ps m \<Longrightarrow> group_inv ovf (ps @ fs) (group_files ovf fs m)"
proof (induction fs arbitrary: ps m)
  case Nil
  then show ?case by simp
next
  case (Cons f fs)
  have "group_inv ovf ((ps @ [f]) @ fs)
          (group_files ovf fs (map_push (strip_frame ovf (file_name f)) (make_run_file f) m))"
    by (rule Cons.IH [OF group_inv_push [OF Cons.prems]])
  then show ?case by simp
qed

lemma group_files_inv0: "group_inv ovf fs (group_files ovf fs [])"
  using group_files_inv [of ovf "[]" "[]" fs] by (simp add: group_inv_def frame_files_def)

lemma sorted_keys_mem:
  assumes "sorted_wrt (<) (map fst m)"
  shows "(k :: u32, vs) \<in> set m \<longleftrightarrow> map_of m k = Some vs"
proof -
  have "sorted_wrt (<) xs \<Longrightarrow> distinct xs" for xs :: "u32 list"
    by (induction xs) auto
  then have "distinct (map fst m)" using assms by blast
  then show ?thesis by auto
qed

lemma sorted_le_last: "sorted_wrt (<) xs \<Longrightarrow> (x :: u32) \<in> set xs \<Longrightarrow> x \<le> last xs"
proof (induction xs)
  case Nil
  then show ?case by simp
next
  case (Cons y xs)
  show ?case
  proof (cases "xs = []")
    case True
    then show ?thesis using Cons.prems by simp
  next
    case False
    then have l: "last xs \<in> set xs" by simp
    show ?thesis
    proof (cases "x = y")
      case True
      then have "x < last xs" using Cons.prems l by auto
      then show ?thesis using False by simp
    next
      case ne: False
      then show ?thesis using Cons False by auto
    qed
  qed
qed

lemma no_frame_last:
  assumes "sorted_wrt (<) (map fst m)" "no_frame \<in> fst ` set m"
  shows "fst (last m) = no_frame"
proof -
  have ne: "m \<noteq> []" using assms(2) by auto
  have "no_frame \<le> last (map fst m)"
    using assms by (intro sorted_le_last) simp_all
  moreover have "last (map fst m) \<le> no_frame" by (simp add: no_frame_def)
  ultimately have "last (map fst m) = no_frame" by (rule order.antisym [rotated])
  then show ?thesis using ne by (simp add: last_map)
qed

text \<open>
  Claim C6. The groups that \<open>exrtool_process\<close> builds from the submitted files are
  in strictly ascending order of frame number, so every frame number has one group; the
  groups are exactly the non-empty lists of the files of one frame number, in submission
  order; and the group of the sentinel, being the greatest 32-bit value, is the last one
  when it exists.
\<close>

theorem group_files_spec:
  "sorted_wrt (<) (map fst (group_files ovf fs [])) \<and>
   (\<forall>k vs. (k, vs) \<in> set (group_files ovf fs []) \<longleftrightarrow>
      vs \<noteq> [] \<and>
      vs = map make_run_file (filter (\<lambda>f. strip_frame ovf (file_name f) = k) fs)) \<and>
   (no_frame \<in> fst ` set (group_files ovf fs []) \<longrightarrow>
      fst (last (group_files ovf fs [])) = no_frame)"
proof -
  have inv: "group_inv ovf fs (group_files ovf fs [])" by (rule group_files_inv0)
  then have s: "sorted_wrt (<) (map fst (group_files ovf fs []))" by (simp add: group_inv_def)
  have "(k, vs) \<in> set (group_files ovf fs []) \<longleftrightarrow>
      vs \<noteq> [] \<and> vs = map make_run_file (filter (\<lambda>f. strip_frame ovf (file_name f) = k) fs)" for k vs
    using inv unfolding sorted_keys_mem [OF s] group_inv_def frame_files_def by auto
  then show ?thesis using s no_frame_last [OF s] by blast
qed


theorem group_files_spec_witness:
  "group_files atoi_ovf_saturate
     [\<lparr>file_name = ''c.exr'', file_channels = [''Z'']\<rparr>,
      \<lparr>file_name = ''a.0002.exr'', file_channels = [''R'']\<rparr>,
      \<lparr>file_name = ''b.0001.exr'', file_channels = [''G'']\<rparr>,
      \<lparr>file_name = ''d.0002.exr'', file_channels = [''B'']\<rparr>] []
   = [(1, [\<lparr>name = ''b.0001.exr'', channels = {''G''}\<rparr>]),
      (2, [\<lparr>name = ''a.0002.exr'', channels = {''R''}\<rparr>,
           \<lparr>name = ''d.0002.exr'', channels = {''B''}\<rparr>]),
      (no_frame, [\<lparr>name = ''c.exr'', channels = {''Z''}\<rparr>])] \<and>
   fst (last (group_files atoi_ovf_saturate
     [\<lparr>file_name = ''c.exr'', file_channels = [''Z'']\<rparr>,
      \<lparr>file_name = ''a.0002.exr'', file_channels = [''R'']\<rparr>,
      \<lparr>file_name = ''b.0001.exr'', file_channels = [''G'']\<rparr>,
      \<lparr>file_name = ''d.0002.exr'', file_channels = [''B'']\<rparr>] [])) = no_frame"
proof -
  let ?fs = "[\<lparr>file_name = ''c.exr'', file_channels = [''Z'']\<rparr>,
      \<lparr>file_name = ''a.0002.exr'', file_channels = [''R'']\<rparr>,
      \<lparr>file_name = ''b.0001.exr'', file_channels = [''G'']\<rparr>,
      \<lparr>file_name = ''d.0002.exr'', file_channels = [''B'']\<rparr>]"
  have f: "strip_frame atoi_ovf_saturate ''c.exr'' = no_frame"
    "strip_frame atoi_ovf_saturate ''a.0002.exr'' = 2"
    "strip_frame atoi_ovf_saturate ''b.0001.exr'' = 1"
    "strip_frame atoi_ovf_saturate ''d.0002.exr'' = 2"
    by (simp_all add: strip_frame_def atoi_def isdigit_def isspace_def INT_MAX_def INT_MIN_def Let_def)
  have lt: "(1 :: u32) < no_frame" "(2 :: u32) < no_frame" "\<not> no_frame < (2 :: u32)" "no_frame \<noteq> (2 :: u32)"
    by (simp_all add: no_frame_def word_less_def word_le_def unsigned_minus_1_eq_mask mask_eq_exp_minus_1)
  have g: "group_files atoi_ovf_saturate ?fs []
   = [(1, [\<lparr>name = ''b.0001.exr'', channels = {''G''}\<rparr>]),
      (2, [\<lparr>name = ''a.0002.exr'', channels = {''R''}\<rparr>,
           \<lparr>name = ''d.0002.exr'', channels = {''B''}\<rparr>]),
      (no_frame, [\<lparr>name = ''c.exr'', channels = {''Z''}\<rparr>])]"
    by (simp add: f lt make_run_file_def)
  then have "no_frame \<in> fst ` set (group_files atoi_ovf_saturate ?fs [])" by simp
  then have "fst (last (group_files atoi_ovf_saturate ?fs [])) = no_frame"
    using group_files_spec [of atoi_ovf_saturate ?fs] by blast
  then show ?thesis using g by simp
qed

section \<open>The channel table\<close>

lemma merge_channel_Nil: "merge_channel c d ([], []) = ([c], [d])"
  by (simp add: merge_channel_def lower_bound_def)

lemma merge_channel_Cons:
  "merge_channel c d (c' # cs, d' # ds) =
     (if chan_name c' < chan_name c
      then (case merge_channel c d (cs, ds) of (cs', ds') \<Rightarrow> (c' # cs', d' # ds'))
      else if chan_name c' = chan_name c then (c # cs, d # ds)
      else (c # c' # cs, d # d' # ds))"
  by (simp add: merge_channel_def lower_bound_def Let_def)

lemma merge_channel_names:
  "length ds = length cs \<Longrightarrow>
   set (map chan_name (fst (merge_channel c d (cs, ds)))) = insert (chan_name c) (set (map chan_name cs))"
proof (induction ds cs rule: list_induct2)
  case Nil
  then show ?case by (simp add: merge_channel_Nil)
next
  case (Cons d' ds c' cs)
  then show ?case by (auto simp: merge_channel_Cons split: prod.splits)
qed

lemma merge_channel_inv:
  "table_inv t \<Longrightarrow> table_inv (merge_channel c d t)"
proof -
  have "length ds = length cs \<Longrightarrow> sorted_wrt (<) (map chan_name cs) \<Longrightarrow>
        table_inv (merge_channel c d (cs, ds))" for cs and ds :: "'a list"
  proof (induction ds cs rule: list_induct2)
    case Nil
    then show ?case by (simp add: merge_channel_Nil table_inv_def)
  next
    case (Cons d' ds c' cs)
    show ?case
    proof (cases "chan_name c' < chan_name c")
      case True
      obtain cs' ds' where m: "merge_channel c d (cs, ds) = (cs', ds')" by (cases "merge_channel c d (cs, ds)")
      have "table_inv (cs', ds')" using Cons m by simp
      moreover have "set (map chan_name cs') = insert (chan_name c) (set (map chan_name cs))"
        using merge_channel_names [OF Cons.hyps, of c d] m by simp
      ultimately show ?thesis using True Cons.prems m
        by (auto simp: merge_channel_Cons table_inv_def)
    next
      case False
      then show ?thesis using Cons.prems Cons.hyps
        by (cases "chan_name c' = chan_name c") (auto simp: merge_channel_Cons table_inv_def)
    qed
  qed
  then show "table_inv t \<Longrightarrow> table_inv (merge_channel c d t)"
    by (cases t) (simp add: table_inv_def)
qed

lemma table_lookup_less:
  "length ds = length cs \<Longrightarrow> \<forall>x\<in>set cs. n < chan_name x \<Longrightarrow> table_lookup (cs, ds) n = None"
  by (induction ds cs rule: list_induct2) (auto simp: table_lookup_def)

lemma merge_channel_lookup:
  "table_inv t \<Longrightarrow> table_lookup (merge_channel c d t) = (table_lookup t)(chan_name c \<mapsto> (c, d))"
proof -
  have "length ds = length cs \<Longrightarrow> sorted_wrt (<) (map chan_name cs) \<Longrightarrow>
        table_lookup (merge_channel c d (cs, ds)) = (table_lookup (cs, ds))(chan_name c \<mapsto> (c, d))"
    for cs and ds :: "'a list"
  proof (induction ds cs rule: list_induct2)
    case Nil
    then show ?case by (simp add: merge_channel_Nil table_lookup_def)
  next
    case (Cons d' ds c' cs)
    show ?case
    proof (cases "chan_name c' < chan_name c")
      case True
      obtain cs' ds' where m: "merge_channel c d (cs, ds) = (cs', ds')" by (cases "merge_channel c d (cs, ds)")
      have s: "sorted_wrt (<) (map chan_name cs)" using Cons.prems by simp
      have "table_lookup (cs', ds') = (table_lookup (cs, ds))(chan_name c \<mapsto> (c, d))"
        unfolding m [symmetric] by (rule Cons.IH [OF s])
      then show ?thesis using True m
        by (auto simp: merge_channel_Cons table_lookup_def fun_eq_iff)
    next
      case False
      show ?thesis
      proof (cases "chan_name c' = chan_name c")
        case True
        then show ?thesis by (auto simp: merge_channel_Cons table_lookup_def fun_eq_iff)
      next
        case ne: False
        then have "chan_name c < chan_name c'" using False by simp
        then have "\<forall>x\<in>set cs. chan_name c < chan_name x" using Cons.prems by auto
        then have "table_lookup (cs, ds) (chan_name c) = None"
          using Cons.hyps by (intro table_lookup_less) simp_all
        then show ?thesis using False ne
          by (auto simp: merge_channel_Cons table_lookup_def fun_eq_iff)
      qed
    qed
  qed
  then show "table_inv t \<Longrightarrow> table_lookup (merge_channel c d t) = (table_lookup t)(chan_name c \<mapsto> (c, d))"
    by (cases t) (simp add: table_inv_def)
qed

lemma merge_planes_inv: "table_inv t \<Longrightarrow> table_inv (merge_planes ps t)"
  by (induction ps t rule: merge_planes.induct) (auto simp: merge_channel_inv)

lemma merge_planes_lookup:
  "table_inv t \<Longrightarrow>
   table_lookup (merge_planes ps t) =
     table_lookup t ++ map_of (rev (map (\<lambda>p. (chan_name (fst p), p)) ps))"
proof (induction ps t rule: merge_planes.induct)
  case (1 t)
  then show ?case by simp
next
  case (2 chan data ps t)
  then show ?case
    by (simp add: merge_channel_inv merge_channel_lookup map_add_def fun_eq_iff split: option.splits)
qed

lemma merge_planes_append: "merge_planes (ps @ qs) t = merge_planes qs (merge_planes ps t)"
  by (induction ps t rule: merge_planes.induct) auto

lemma merge_file_channels_eq:
  "merge_file_channels f ps t = merge_planes (filter (\<lambda>p. use_channel f (chan_name (fst p))) ps) t"
  by (induction f ps t rule: merge_file_channels.induct) auto

lemma map_of_rev_last:
  "map_of (rev (map (\<lambda>p. (key p, p)) ps)) n =
     (if filter (\<lambda>p. key p = n) ps = [] then None else Some (last (filter (\<lambda>p. key p = n) ps)))"
  by (induction ps rule: rev_induct) auto

lemma table_lookup_nth:
  assumes "table_inv (cs, ds)" "i < length cs"
  shows "table_lookup (cs, ds) (chan_name (cs ! i)) = Some (cs ! i, ds ! i)"
proof -
  have "sorted_wrt (<) xs \<Longrightarrow> distinct xs" for xs :: "string list"
    by (induction xs) auto
  then have d: "distinct (map chan_name cs)" using assms(1) by (simp add: table_inv_def)
  have l: "length (map chan_name cs) = length (zip cs ds)" using assms(1) by (simp add: table_inv_def)
  have "map_of (zip (map chan_name cs) (zip cs ds)) (map chan_name cs ! i) = Some (zip cs ds ! i)"
    using assms(2) l by (intro map_of_zip_nth [OF l d]) simp
  then show ?thesis using assms by (simp add: table_lookup_def table_inv_def)
qed

lemma table_lookup_dom:
  "table_inv (cs, ds) \<Longrightarrow> dom (table_lookup (cs, ds)) = set (map chan_name cs)"
  by (simp add: table_lookup_def table_inv_def dom_map_of_zip)

section \<open>The file loop and the frame group\<close>

lemma decode_files_Cons:
  "decode_files cd (f # rest) l run =
     (case decode_outcome cd f of
        Inl e \<Rightarrow> (False, l, run_error e run)
      | Inr r \<Rightarrow>
          (case merge_planes (file_planes cd f) (chans l, datas l) of
             (cs, ds) \<Rightarrow>
               decode_files cd rest
                 (l\<lparr>headers := headers l @ [fst r], imgs := imgs l @ [snd r], chans := cs, datas := ds\<rparr>)
                 (progress_add run)))"
  by (simp add: decode_outcome_def file_planes_def merge_file_channels_eq
      split: option.splits sum.splits prod.splits)

lemma decode_files_ok: "fst (decode_files cd fs l run) = list_all (decodes cd) fs"
proof (induction fs arbitrary: l run)
  case Nil
  then show ?case by simp
next
  case (Cons f fs)
  show ?case
    unfolding decode_files_Cons
    by (simp add: Cons.IH decodes_def split: sum.splits prod.splits)
qed

lemma decode_files_table:
  "(chans (fst (snd (decode_files cd fs l run))), datas (fst (snd (decode_files cd fs l run)))) =
     merge_planes (group_planes cd (takeWhile (decodes cd) fs)) (chans l, datas l)"
proof (induction fs arbitrary: l run)
  case Nil
  then show ?case by (simp add: group_planes_def)
next
  case (Cons f fs)
  show ?case
    unfolding decode_files_Cons
    by (simp add: Cons.IH decodes_def group_planes_def merge_planes_append split: sum.splits prod.splits)
qed

lemma decode_files_headers:
  "headers (fst (snd (decode_files cd fs l run))) =
     headers l @ map (\<lambda>f. fst (projr (decode_outcome cd f))) (takeWhile (decodes cd) fs)"
proof (induction fs arbitrary: l run)
  case Nil
  then show ?case by simp
next
  case (Cons f fs)
  show ?case
    unfolding decode_files_Cons
    by (simp add: Cons.IH decodes_def split: sum.splits prod.splits)
qed

lemma decode_files_imgs:
  "imgs (fst (snd (decode_files cd fs l run))) =
     imgs l @ map (\<lambda>f. snd (projr (decode_outcome cd f))) (takeWhile (decodes cd) fs)"
proof (induction fs arbitrary: l run)
  case Nil
  then show ?case by simp
next
  case (Cons f fs)
  show ?case
    unfolding decode_files_Cons
    by (simp add: Cons.IH decodes_def split: sum.splits prod.splits)
qed

lemma decode_files_run:
  "snd (snd (decode_files cd fs l run)) =
     run\<lparr>a_progress := a_progress run + of_nat (length (takeWhile (decodes cd) fs)),
         errors := errors run @ decode_errors cd fs\<rparr>"
proof (induction fs arbitrary: l run)
  case Nil
  then show ?case by (simp add: decode_errors_def)
next
  case (Cons f fs)
  show ?case
  proof (cases "decode_outcome cd f")
    case (Inl e)
    then have "\<not> decodes cd f" by (simp add: decodes_def)
    then show ?thesis
      unfolding decode_files_Cons using Inl by (simp add: run_error_def decode_errors_def)
  next
    case (Inr r)
    then have d: "decodes cd f" by (simp add: decodes_def)
    have e: "decode_errors cd (f # fs) = decode_errors cd fs"
      using d by (simp add: decode_errors_def)
    show ?thesis
      unfolding decode_files_Cons e using Inr d
      by (simp add: Cons.IH progress_add_def split: prod.splits)
  qed
qed

lemma takeWhile_all: "list_all P xs \<Longrightarrow> takeWhile P xs = xs"
  by (induction xs) auto

lemma dropWhile_all: "list_all P xs \<Longrightarrow> dropWhile P xs = []"
  by (induction xs) auto

lemma decode_errors_all: "list_all (decodes cd) fs \<Longrightarrow> decode_errors cd fs = []"
  by (simp add: decode_errors_def dropWhile_all)

lemma merged_table_inv: "table_inv (merged_table cd fs)"
  unfolding merged_table_def by (rule merge_planes_inv) (simp add: table_inv_def)

lemma merged_table_Nil: "merged_table cd [] = ([], [])"
  by (simp add: merged_table_def group_planes_def)

lemma process_frame_failed:
  assumes "\<not> list_all (decodes (cd :: ('v, 'h, 'd, 'i) codec)) fs"
  shows "process_frame cd run frame fs =
     Some (False, run\<lparr>a_progress := a_progress run + of_nat (length (takeWhile (decodes cd) fs)) + 1,
                      errors := errors run @ decode_errors cd fs\<rparr>)"
proof -
  let ?e = "\<lparr>headers = [], imgs = [], chans = [], datas = []\<rparr> :: ('h, 'd, 'i) frame_locals"
  obtain ok l run1 where d: "decode_files cd fs ?e run = (ok, l, run1)"
    by (cases "decode_files cd fs ?e run") auto
  have ok: "\<not> ok" using decode_files_ok [of cd fs ?e run] d assms by simp
  have r: "run1 = run\<lparr>a_progress := a_progress run + of_nat (length (takeWhile (decodes cd) fs)),
         errors := errors run @ decode_errors cd fs\<rparr>"
    using decode_files_run [of cd fs ?e run] d by simp
  show ?thesis
    unfolding process_frame_def d using ok by (simp add: r progress_add_def)
qed

lemma process_frame_no_channels:
  assumes "list_all (decodes (cd :: ('v, 'h, 'd, 'i) codec)) fs" "fst (merged_table cd fs) = []"
  shows "process_frame cd run frame fs =
     Some (False, run\<lparr>a_progress := a_progress run + of_nat (length fs) + 1,
                      errors := errors run @ [NoChannelsError frame]\<rparr>)"
proof -
  let ?e = "\<lparr>headers = [], imgs = [], chans = [], datas = []\<rparr> :: ('h, 'd, 'i) frame_locals"
  obtain ok l run1 where d: "decode_files cd fs ?e run = (ok, l, run1)"
    by (cases "decode_files cd fs ?e run") auto
  have ok: "ok" using decode_files_ok [of cd fs ?e run] d assms by simp
  have t: "(chans l, datas l) = merged_table cd fs"
    using decode_files_table [of cd fs ?e run] d assms(1) by (simp add: takeWhile_all merged_table_def)
  then have c: "chans l = []" using assms(2) by (metis fst_conv)
  have r: "run1 = run\<lparr>a_progress := a_progress run + of_nat (length fs)\<rparr>"
    using decode_files_run [of cd fs ?e run] d assms(1) by (simp add: takeWhile_all decode_errors_all)
  show ?thesis
    unfolding process_frame_def d using ok c by (simp add: r progress_add_def run_error_def)
qed

lemma process_frame_saved:
  assumes "list_all (decodes (cd :: ('v, 'h, 'd, 'i) codec)) fs" "fst (merged_table cd fs) \<noteq> []"
  shows "fs \<noteq> [] \<and>
    process_frame cd run frame fs =
     (let header = (fst (projr (decode_outcome cd (hd fs))))
            \<lparr>header_channels := fst (merged_table cd fs),
             pixel_types := map pixel_type (fst (merged_table cd fs)),
             requested_pixel_types := map pixel_type (fst (merged_table cd fs))\<rparr>;
          img = (snd (projr (decode_outcome cd (hd fs))))\<lparr>images := snd (merged_table cd fs)\<rparr>;
          path = output_path (output_name run) frame;
          run1 = run\<lparr>a_progress := a_progress run + of_nat (length fs) + 1,
                     save_calls := save_calls run @ [(path, img, header)]\<rparr>
      in case SaveEXRImageToFile cd img header path of
           None \<Rightarrow> Some (True, run1)
         | Some err \<Rightarrow> Some (False, run1\<lparr>errors := errors run @ [ImageSaveError]\<rparr>))"
proof -
  let ?e = "\<lparr>headers = [], imgs = [], chans = [], datas = []\<rparr> :: ('h, 'd, 'i) frame_locals"
  obtain ok l run1 where d: "decode_files cd fs ?e run = (ok, l, run1)"
    by (cases "decode_files cd fs ?e run") auto
  have ne: "fs \<noteq> []" using assms(2) by (auto simp: merged_table_Nil)
  then obtain f rest where fs: "fs = f # rest" by (cases fs) auto
  have ok: "ok" using decode_files_ok [of cd fs ?e run] d assms by simp
  have t: "(chans l, datas l) = merged_table cd fs"
    using decode_files_table [of cd fs ?e run] d assms(1) by (simp add: takeWhile_all merged_table_def)
  then have c: "chans l = fst (merged_table cd fs)" "datas l = snd (merged_table cd fs)"
    by (metis fst_conv, metis snd_conv)
  have h: "headers l = fst (projr (decode_outcome cd f)) # map (\<lambda>f. fst (projr (decode_outcome cd f))) rest"
    using decode_files_headers [of cd fs ?e run] d assms(1) fs by (simp add: takeWhile_all)
  have i: "imgs l = snd (projr (decode_outcome cd f)) # map (\<lambda>f. snd (projr (decode_outcome cd f))) rest"
    using decode_files_imgs [of cd fs ?e run] d assms(1) fs by (simp add: takeWhile_all)
  have r: "run1 = run\<lparr>a_progress := a_progress run + of_nat (length fs)\<rparr>"
    using decode_files_run [of cd fs ?e run] d assms(1) by (simp add: takeWhile_all decode_errors_all)
  have "process_frame cd run frame fs = (let header = (fst (projr (decode_outcome cd (hd fs))))
            \<lparr>header_channels := fst (merged_table cd fs),
             pixel_types := map pixel_type (fst (merged_table cd fs)),
             requested_pixel_types := map pixel_type (fst (merged_table cd fs))\<rparr>;
          img = (snd (projr (decode_outcome cd (hd fs))))\<lparr>images := snd (merged_table cd fs)\<rparr>;
          path = output_path (output_name run) frame;
          run1 = run\<lparr>a_progress := a_progress run + of_nat (length fs) + 1,
                     save_calls := save_calls run @ [(path, img, header)]\<rparr>
      in case SaveEXRImageToFile cd img header path of
           None \<Rightarrow> Some (True, run1)
         | Some err \<Rightarrow> Some (False, run1\<lparr>errors := errors run @ [ImageSaveError]\<rparr>))"
    unfolding process_frame_def d using ok assms(2)
    by (simp add: r c h i fs save_frame_def progress_add_def run_error_def Let_def split: option.splits)
  then show ?thesis using ne by simp
qed

section \<open>The example run, evaluated\<close>

lemma ex_frames:
  "frames (ex_run n) = [(1, [ex_file_bad]), (7, [ex_file_a, ex_file_b])]"
proof -
  have f: "strip_frame atoi_ovf_saturate ''bad.0001.exr'' = 1"
    "strip_frame atoi_ovf_saturate ''a.0007.exr'' = 7"
    "strip_frame atoi_ovf_saturate ''b.0007.exr'' = 7"
    by (simp_all add: strip_frame_def atoi_def isdigit_def isspace_def INT_MAX_def INT_MIN_def Let_def)
  show ?thesis
    by (simp add: ex_run_def exrtool_process_def ex_input_def f make_run_file_def
        ex_file_a_def ex_file_b_def ex_file_bad_def insert_commute)
qed

lemma ex_outcome:
  "decode_outcome ex_codec ex_file_bad = Inl VersionParseError"
  "decode_outcome ex_codec ex_file_a =
     Inr (\<lparr>header_channels = [\<lparr>chan_name = ''G'', pixel_type = 1\<rparr>, \<lparr>chan_name = ''R'', pixel_type = 1\<rparr>],
           pixel_types = [1, 1], requested_pixel_types = [1, 1], header_other = ''header of a''\<rparr>,
          \<lparr>images = [''a.G'', ''a.R''], image_other = ''image of a''\<rparr>)"
  "decode_outcome ex_codec ex_file_b =
     Inr (\<lparr>header_channels = [\<lparr>chan_name = ''B'', pixel_type = 2\<rparr>, \<lparr>chan_name = ''R'', pixel_type = 2\<rparr>],
           pixel_types = [2, 2], requested_pixel_types = [2, 2], header_other = ''header of b''\<rparr>,
          \<lparr>images = [''b.B'', ''b.R''], image_other = ''image of b''\<rparr>)"
  by (simp_all add: decode_outcome_def ex_codec_def ex_file_a_def ex_file_b_def ex_file_bad_def)

lemma ex_decodes:
  "\<not> decodes ex_codec ex_file_bad" "decodes ex_codec ex_file_a" "decodes ex_codec ex_file_b"
  by (simp_all add: decodes_def ex_outcome)

lemma ex_planes:
  "group_planes ex_codec [ex_file_a, ex_file_b] =
     [(\<lparr>chan_name = ''G'', pixel_type = 1\<rparr>, ''a.G''), (\<lparr>chan_name = ''R'', pixel_type = 1\<rparr>, ''a.R''),
      (\<lparr>chan_name = ''B'', pixel_type = 2\<rparr>, ''b.B''), (\<lparr>chan_name = ''R'', pixel_type = 2\<rparr>, ''b.R'')]"
proof -
  have c: "channels ex_file_a = {''R'', ''G''}" "channels ex_file_b = {''B'', ''R''}"
    by (simp_all add: ex_file_a_def ex_file_b_def)
  show ?thesis
    by (simp add: group_planes_def file_planes_def ex_outcome use_channel_def c)
qed

lemma name_order: "''B'' < ''G''" "''G'' < ''R''" "''B'' < ''R''" "\<not> ''G'' < ''B''" "\<not> ''R'' < ''G''" "\<not> ''R'' < ''B''"
  "\<not> ''R'' < ''R''"
  by code_simp+

lemma ex_merged:
  "merged_table ex_codec [ex_file_a, ex_file_b] =
     ([\<lparr>chan_name = ''B'', pixel_type = 2\<rparr>, \<lparr>chan_name = ''G'', pixel_type = 1\<rparr>,
       \<lparr>chan_name = ''R'', pixel_type = 2\<rparr>], [''b.B'', ''a.G'', ''b.R''])"
  by (simp add: merged_table_def ex_planes merge_channel_Nil merge_channel_Cons name_order)

lemma ex_run_fields:
  "output_name (ex_run n) = ''out.####.exr''" "save_calls (ex_run n) = []" "errors (ex_run n) = []"
  "a_progress (ex_run n) = 0" "a_frames_started (ex_run n) = 0" "a_threads_done (ex_run n) = 0"
  "progress_calls (ex_run n) = []" "progress_fn (input (ex_run n)) = True"
  "length (files (input (ex_run n))) = 3"
  by (simp_all add: ex_run_def exrtool_process_def ex_input_def)

section \<open>Claims on the merge\<close>

text \<open>
  Claim C9. \<open>process_frame\<close> never reads \<open>headers[0]\<close> or \<open>images[0]\<close> of
  an empty vector: it returns for every group. When all files of the group decode and the
  merged table is not empty, the group has a first file, and the header and the image
  handed to the save call are the header and the image of that first file with only the
  channel table, the two pixel type arrays and the planes replaced by the merged ones.
\<close>

theorem process_frame_first_file:
  "(\<exists>ok run'. process_frame cd run frame fs = Some (ok, run')) \<and>
   (list_all (decodes cd) fs \<and> fst (merged_table cd fs) \<noteq> [] \<longrightarrow>
      (\<exists>f rest h0 i0 ok run'.
         fs = f # rest \<and> decode_outcome cd f = Inr (h0, i0) \<and>
         process_frame cd run frame fs = Some (ok, run') \<and>
         save_calls run' = save_calls run @
           [(output_path (output_name run) frame,
             i0\<lparr>images := snd (merged_table cd fs)\<rparr>,
             h0\<lparr>header_channels := fst (merged_table cd fs),
                pixel_types := map pixel_type (fst (merged_table cd fs)),
                requested_pixel_types := map pixel_type (fst (merged_table cd fs))\<rparr>)]))"
proof (intro conjI impI)
  show "\<exists>ok run'. process_frame cd run frame fs = Some (ok, run')"
  proof (cases "list_all (decodes cd) fs")
    case False
    then show ?thesis using process_frame_failed [of cd fs run frame] by blast
  next
    case True
    show ?thesis
    proof (cases "fst (merged_table cd fs) = []")
      case e: True
      then show ?thesis using process_frame_no_channels [OF True, of run frame] by blast
    next
      case ne: False
      show ?thesis
        using process_frame_saved [OF True ne, of run frame]
        by (auto simp: Let_def split: option.splits)
    qed
  qed
next
  assume a: "list_all (decodes cd) fs \<and> fst (merged_table cd fs) \<noteq> []"
  then have d: "list_all (decodes cd) fs" and ne: "fst (merged_table cd fs) \<noteq> []" by simp_all
  note s = process_frame_saved [OF d ne, of run frame]
  then obtain f rest where fs: "fs = f # rest" by (cases fs) auto
  have "decodes cd f" using d fs by simp
  then obtain h0 i0 where o: "decode_outcome cd f = Inr (h0, i0)"
    by (cases "decode_outcome cd f") (auto simp: decodes_def)
  show "\<exists>f rest h0 i0 ok run'.
         fs = f # rest \<and> decode_outcome cd f = Inr (h0, i0) \<and>
         process_frame cd run frame fs = Some (ok, run') \<and>
         save_calls run' = save_calls run @
           [(output_path (output_name run) frame,
             i0\<lparr>images := snd (merged_table cd fs)\<rparr>,
             h0\<lparr>header_channels := fst (merged_table cd fs),
                pixel_types := map pixel_type (fst (merged_table cd fs)),
                requested_pixel_types := map pixel_type (fst (merged_table cd fs))\<rparr>)]"
    using s fs o by (auto simp: Let_def split: option.splits)
qed

theorem process_frame_first_file_witness:
  "\<exists>ok run'. process_frame ex_codec (ex_run 1) 7 [ex_file_a, ex_file_b] = Some (ok, run') \<and>
     save_calls run' =
       [(''out.0007.exr'',
         \<lparr>images = [''b.B'', ''a.G'', ''b.R''], image_other = ''image of a''\<rparr>,
         \<lparr>header_channels = [\<lparr>chan_name = ''B'', pixel_type = 2\<rparr>, \<lparr>chan_name = ''G'', pixel_type = 1\<rparr>,
                              \<lparr>chan_name = ''R'', pixel_type = 2\<rparr>],
          pixel_types = [2, 1, 2], requested_pixel_types = [2, 1, 2],
          header_other = ''header of a''\<rparr>)]"
proof -
  have h: "list_all (decodes ex_codec) [ex_file_a, ex_file_b] \<and>
           fst (merged_table ex_codec [ex_file_a, ex_file_b]) \<noteq> []"
    by (simp add: ex_decodes ex_merged)
  from process_frame_first_file [of ex_codec "ex_run 1" 7 "[ex_file_a, ex_file_b]"] h
  obtain f rest h0 i0 ok run' where
    "[ex_file_a, ex_file_b] = f # rest" "decode_outcome ex_codec f = Inr (h0, i0)"
    "process_frame ex_codec (ex_run 1) 7 [ex_file_a, ex_file_b] = Some (ok, run')"
    "save_calls run' = save_calls (ex_run 1) @
           [(output_path (output_name (ex_run 1)) 7,
             i0\<lparr>images := snd (merged_table ex_codec [ex_file_a, ex_file_b])\<rparr>,
             h0\<lparr>header_channels := fst (merged_table ex_codec [ex_file_a, ex_file_b]),
                pixel_types := map pixel_type (fst (merged_table ex_codec [ex_file_a, ex_file_b])),
                requested_pixel_types := map pixel_type (fst (merged_table ex_codec [ex_file_a, ex_file_b]))\<rparr>)]"
    by blast
  then show ?thesis
    by (auto simp: ex_outcome ex_merged ex_run_fields output_path_padded)
qed

text \<open>
  Claim C5. The channel table that the file loop builds has strictly ascending names, so
  each name once and in lexicographic order, with one plane per channel; its names are
  those of the selected channels of the files decoded; and each entry, channel information
  and plane, is the last one of its name in the order in which the files and their
  channels were scanned.
\<close>

theorem merged_channel_set:
  "\<exists>l run'.
     decode_files (cd :: ('v, 'h, 'd, 'i) codec) fs \<lparr>headers = [], imgs = [], chans = [], datas = []\<rparr> run
       = (list_all (decodes cd) fs, l, run') \<and>
     sorted_wrt (<) (map chan_name (chans l)) \<and>
     length (datas l) = length (chans l) \<and>
     set (map chan_name (chans l))
       = (\<lambda>p. chan_name (fst p)) ` set (group_planes cd (takeWhile (decodes cd) fs)) \<and>
     (\<forall>i<length (chans l).
        (chans l ! i, datas l ! i)
          = last (filter (\<lambda>p. chan_name (fst p) = chan_name (chans l ! i))
                    (group_planes cd (takeWhile (decodes cd) fs))))"
proof -
  let ?e = "\<lparr>headers = [], imgs = [], chans = [], datas = []\<rparr> :: ('h, 'd, 'i) frame_locals"
  let ?ps = "group_planes cd (takeWhile (decodes cd) fs)"
  obtain ok l run' where d: "decode_files cd fs ?e run = (ok, l, run')"
    by (cases "decode_files cd fs ?e run") auto
  have ok: "ok = list_all (decodes cd) fs" using decode_files_ok [of cd fs ?e run] d by simp
  have t: "(chans l, datas l) = merge_planes ?ps ([], [])"
    using decode_files_table [of cd fs ?e run] d by simp
  have inv: "table_inv (chans l, datas l)"
    unfolding t by (rule merge_planes_inv) (simp add: table_inv_def)
  have lk: "table_lookup (chans l, datas l) = map_of (rev (map (\<lambda>p. (chan_name (fst p), p)) ?ps))"
    unfolding t by (subst merge_planes_lookup) (simp_all add: table_inv_def table_lookup_def)
  have names: "set (map chan_name (chans l)) = (\<lambda>p. chan_name (fst p)) ` set ?ps"
  proof -
    have "set (map chan_name (chans l)) = dom (table_lookup (chans l, datas l))"
      using table_lookup_dom [OF inv] by simp
    also have "\<dots> = fst ` set (rev (map (\<lambda>p. (chan_name (fst p), p)) ?ps))"
      unfolding lk by (rule dom_map_of_conv_image_fst)
    also have "\<dots> = (\<lambda>p. chan_name (fst p)) ` set ?ps" by (simp add: image_image)
    finally show ?thesis .
  qed
  have nth: "(chans l ! i, datas l ! i)
          = last (filter (\<lambda>p. chan_name (fst p) = chan_name (chans l ! i)) ?ps)"
    if i: "i < length (chans l)" for i
  proof -
    have "table_lookup (chans l, datas l) (chan_name (chans l ! i)) = Some (chans l ! i, datas l ! i)"
      by (rule table_lookup_nth [OF inv i])
    then have "map_of (rev (map (\<lambda>p. (chan_name (fst p), p)) ?ps)) (chan_name (chans l ! i))
        = Some (chans l ! i, datas l ! i)" unfolding lk .
    then show ?thesis
      unfolding map_of_rev_last [of "\<lambda>p. chan_name (fst p)"] by (simp split: if_splits)
  qed
  show ?thesis
    using d ok inv names nth by (auto simp: table_inv_def)
qed

theorem merged_channel_set_witness:
  "\<exists>l run'.
     decode_files ex_codec [ex_file_a, ex_file_b] \<lparr>headers = [], imgs = [], chans = [], datas = []\<rparr> (ex_run 1)
       = (True, l, run') \<and>
     map chan_name (chans l) = [''B'', ''G'', ''R''] \<and>
     (chans l ! 2, datas l ! 2) = (\<lparr>chan_name = ''R'', pixel_type = 2\<rparr>, ''b.R'')"
proof -
  let ?e = "\<lparr>headers = [], imgs = [], chans = [], datas = []\<rparr> :: (string, string, string) frame_locals"
  have tw: "takeWhile (decodes ex_codec) [ex_file_a, ex_file_b] = [ex_file_a, ex_file_b]"
    by (simp add: ex_decodes)
  from merged_channel_set [of ex_codec "[ex_file_a, ex_file_b]" "ex_run 1"]
  obtain l run' where
    d: "decode_files ex_codec [ex_file_a, ex_file_b] ?e (ex_run 1)
          = (list_all (decodes ex_codec) [ex_file_a, ex_file_b], l, run')"
    and n: "\<forall>i<length (chans l).
        (chans l ! i, datas l ! i)
          = last (filter (\<lambda>p. chan_name (fst p) = chan_name (chans l ! i))
                    (group_planes ex_codec (takeWhile (decodes ex_codec) [ex_file_a, ex_file_b])))"
    by blast
  have "(chans l, datas l) = merged_table ex_codec [ex_file_a, ex_file_b]"
    using decode_files_table [of ex_codec "[ex_file_a, ex_file_b]" ?e "ex_run 1"] d tw
    by (simp add: merged_table_def)
  then have c: "chans l = [\<lparr>chan_name = ''B'', pixel_type = 2\<rparr>, \<lparr>chan_name = ''G'', pixel_type = 1\<rparr>,
       \<lparr>chan_name = ''R'', pixel_type = 2\<rparr>]" by (simp add: ex_merged)
  have "2 < length (chans l)" by (simp add: c)
  with n have "(chans l ! 2, datas l ! 2)
          = last (filter (\<lambda>p. chan_name (fst p) = chan_name (chans l ! 2))
                    (group_planes ex_codec (takeWhile (decodes ex_codec) [ex_file_a, ex_file_b])))"
    by blast
  then have "(chans l ! 2, datas l ! 2) = (\<lparr>chan_name = ''R'', pixel_type = 2\<rparr>, ''b.R'')"
    unfolding tw ex_planes by (simp add: c)
  then show ?thesis using d c by (simp add: ex_decodes)
qed

lemma decode_outcome_channels:
  "name g = name f \<Longrightarrow> decode_outcome cd g = decode_outcome cd f"
  by (simp add: decode_outcome_def split: option.splits sum.splits)

lemma decode_files_cong:
  "\<forall>f\<in>set fs. decode_outcome cd (g f) = decode_outcome cd f \<and> file_planes cd (g f) = file_planes cd f \<Longrightarrow>
   decode_files cd (map g fs) l run = decode_files cd fs l run"
proof (induction fs arbitrary: l run)
  case Nil
  then show ?case by simp
next
  case (Cons f fs)
  then show ?case
    unfolding list.map decode_files_Cons by (simp split: sum.splits prod.splits)
qed

lemma file_planes_add_request:
  assumes "\<forall>h i. decode_outcome cd f = Inr (h, i) \<longrightarrow> n \<notin> chan_name ` set (header_channels h)"
  shows "file_planes cd (f\<lparr>channels := insert n (channels f)\<rparr>) = file_planes cd f"
proof (cases "decode_outcome cd f")
  case (Inl e)
  then show ?thesis
    using decode_outcome_channels [of "f\<lparr>channels := insert n (channels f)\<rparr>" f cd]
    by (simp add: file_planes_def)
next
  case (Inr r)
  obtain h i where r: "r = (h, i)" by (cases r)
  have n: "n \<notin> chan_name ` set (header_channels h)" using assms Inr r by simp
  have "filter (\<lambda>p. use_channel (f\<lparr>channels := insert n (channels f)\<rparr>) (chan_name (fst p)))
          (zip (header_channels h) (images i))
        = filter (\<lambda>p. use_channel f (chan_name (fst p))) (zip (header_channels h) (images i))"
  proof (rule filter_cong [OF refl])
    fix p assume "p \<in> set (zip (header_channels h) (images i))"
    then have "fst p \<in> set (header_channels h)"
      using set_zip_leftD [of "fst p" "snd p" "header_channels h" "images i"] by simp
    then have "chan_name (fst p) \<noteq> n" using n by auto
    then show "use_channel (f\<lparr>channels := insert n (channels f)\<rparr>) (chan_name (fst p))
               = use_channel f (chan_name (fst p))"
      by (simp add: use_channel_def)
  qed
  then show ?thesis
    using Inr r decode_outcome_channels [of "f\<lparr>channels := insert n (channels f)\<rparr>" f cd]
    by (simp add: file_planes_def)
qed

lemma file_planes_names:
  "p \<in> set (file_planes cd f) \<Longrightarrow>
   \<exists>h i. decode_outcome cd f = Inr (h, i) \<and> chan_name (fst p) \<in> chan_name ` set (header_channels h)"
proof (cases "decode_outcome cd f")
  case (Inl e)
  assume "p \<in> set (file_planes cd f)"
  then show ?thesis using Inl by (simp add: file_planes_def)
next
  case (Inr r)
  assume "p \<in> set (file_planes cd f)"
  then have "p \<in> set (zip (header_channels (fst r)) (images (snd r)))"
    using Inr by (simp add: file_planes_def)
  then have "fst p \<in> set (header_channels (fst r))"
    using set_zip_leftD [of "fst p" "snd p" "header_channels (fst r)" "images (snd r)"] by simp
  then show ?thesis using Inr by (cases r) auto
qed

lemma merged_table_names:
  "set (map chan_name (fst (merged_table cd fs))) = (\<lambda>p. chan_name (fst p)) ` set (group_planes cd fs)"
proof -
  obtain cs ds where m: "merged_table cd fs = (cs, ds)" by (cases "merged_table cd fs")
  have inv: "table_inv (cs, ds)" using merged_table_inv [of cd fs] m by simp
  have "table_lookup (cs, ds) = map_of (rev (map (\<lambda>p. (chan_name (fst p), p)) (group_planes cd fs)))"
    unfolding m [symmetric] merged_table_def
    by (subst merge_planes_lookup) (simp_all add: table_inv_def table_lookup_def)
  then have "dom (table_lookup (cs, ds)) = fst ` set (rev (map (\<lambda>p. (chan_name (fst p), p)) (group_planes cd fs)))"
    by (simp only: dom_map_of_conv_image_fst)
  then show ?thesis using table_lookup_dom [OF inv] m by (simp add: image_image)
qed

lemma decode_errors_kind:
  "decode_errors cd fs \<noteq> [NoChannelsError frame]"
proof (cases "dropWhile (decodes cd) fs")
  case Nil
  show ?thesis unfolding decode_errors_def Nil by simp
next
  case (Cons f rest)
  then have "\<not> decodes cd f" using hd_dropWhile [of "decodes cd" fs] by auto
  then have "projl (decode_outcome cd f) \<noteq> NoChannelsError frame"
    by (auto simp: decodes_def decode_outcome_def split: option.splits sum.splits)
  then show ?thesis unfolding decode_errors_def Cons by simp
qed

text \<open>
  Claim C10. Let \<open>n\<close> be a channel name that is in the header of no file of the group
  that decodes. Requesting \<open>n\<close>, from any of the files, changes nothing in what
  \<open>process_frame\<close> returns: not the result, not the errors, not the image saved. The
  merged table has no entry of that name. And the "no channels" error is the one recorded
  exactly when all files decode and the merged table is empty.
\<close>

theorem missing_channel_ignored:
  assumes "\<forall>f\<in>set fs. \<forall>h i. decode_outcome cd f = Inr (h, i) \<longrightarrow>
             n \<notin> chan_name ` set (header_channels h)"
  shows "process_frame cd run frame (map (\<lambda>f. f\<lparr>channels := insert n (channels f)\<rparr>) fs)
           = process_frame cd run frame fs \<and>
         n \<notin> chan_name ` set (fst (merged_table cd fs)) \<and>
         (\<exists>ok run'. process_frame cd run frame fs = Some (ok, run') \<and>
            (errors run' = errors run @ [NoChannelsError frame] \<longleftrightarrow>
               list_all (decodes cd) fs \<and> fst (merged_table cd fs) = []))"
proof (intro conjI)
  let ?g = "\<lambda>f. f\<lparr>channels := insert n (channels f)\<rparr>"
  have "\<forall>f\<in>set fs. decode_outcome cd (?g f) = decode_outcome cd f \<and>
          file_planes cd (?g f) = file_planes cd f"
    using assms by (auto intro: decode_outcome_channels file_planes_add_request)
  then have "decode_files cd (map ?g fs) l r = decode_files cd fs l r" for l r
    by (rule decode_files_cong)
  then show "process_frame cd run frame (map ?g fs) = process_frame cd run frame fs"
    by (simp add: process_frame_def)
next
  have "chan_name (fst p) \<noteq> n" if p: "p \<in> set (group_planes cd fs)" for p
  proof -
    obtain f where f: "f \<in> set fs" "p \<in> set (file_planes cd f)"
      using p by (auto simp: group_planes_def)
    then obtain h i where "decode_outcome cd f = Inr (h, i)"
      "chan_name (fst p) \<in> chan_name ` set (header_channels h)"
      using file_planes_names by blast
    then show ?thesis using assms f(1) by auto
  qed
  then have "n \<notin> (\<lambda>p. chan_name (fst p)) ` set (group_planes cd fs)" by auto
  then show "n \<notin> chan_name ` set (fst (merged_table cd fs))"
    using merged_table_names [of cd fs] by simp
next
  show "\<exists>ok run'. process_frame cd run frame fs = Some (ok, run') \<and>
            (errors run' = errors run @ [NoChannelsError frame] \<longleftrightarrow>
               list_all (decodes cd) fs \<and> fst (merged_table cd fs) = [])"
  proof (cases "list_all (decodes cd) fs")
    case False
    then show ?thesis
      using process_frame_failed [OF False, of run frame] decode_errors_kind [of cd fs frame]
      by auto
  next
    case True
    show ?thesis
    proof (cases "fst (merged_table cd fs) = []")
      case e: True
      then show ?thesis using process_frame_no_channels [OF True e, of run frame] True by auto
    next
      case ne: False
      show ?thesis
        using process_frame_saved [OF True ne, of run frame] ne
        by (auto simp: Let_def split: option.splits)
    qed
  qed
qed

theorem missing_channel_ignored_witness:
  "process_frame ex_codec (ex_run 1) 7
     (map (\<lambda>f. f\<lparr>channels := insert ''Z'' (channels f)\<rparr>) [ex_file_a, ex_file_b])
     = process_frame ex_codec (ex_run 1) 7 [ex_file_a, ex_file_b] \<and>
   ''Z'' \<notin> chan_name ` set (fst (merged_table ex_codec [ex_file_a, ex_file_b]))"
proof -
  have "\<forall>f\<in>set [ex_file_a, ex_file_b]. \<forall>h i. decode_outcome ex_codec f = Inr (h, i) \<longrightarrow>
             ''Z'' \<notin> chan_name ` set (header_channels h)"
    by (auto simp: ex_outcome)
  from missing_channel_ignored [OF this, of "ex_run 1" 7] show ?thesis by blast
qed

section \<open>The worker threads\<close>

lemma process_frame_returns:
  "\<exists>ok run'. process_frame cd run frame fs = Some (ok, run') \<and>
     a_progress run' = a_progress run + of_nat (length (takeWhile (decodes cd) fs)) + 1 \<and>
     frames run' = frames run \<and> input run' = input run \<and> output_name run' = output_name run \<and>
     threads run' = threads run \<and> a_frames_started run' = a_frames_started run \<and>
     a_threads_done run' = a_threads_done run \<and> progress_calls run' = progress_calls run"
proof (cases "list_all (decodes cd) fs")
  case False
  then show ?thesis using process_frame_failed [OF False, of run frame] by auto
next
  case True
  show ?thesis
  proof (cases "fst (merged_table cd fs) = []")
    case e: True
    then show ?thesis
      using process_frame_no_channels [OF True e, of run frame] True by (auto simp: takeWhile_all)
  next
    case ne: False
    show ?thesis
      using process_frame_saved [OF True ne, of run frame] True
      by (auto simp: Let_def takeWhile_all split: option.splits)
  qed
qed

lemma process_next_frame_returns:
  "\<exists>go run'. process_next_frame cd run = Some (go, run') \<and>
     frames run' = frames run \<and> input run' = input run \<and> threads run' = threads run"
proof (cases "unat (a_frames_started run) \<ge> length (frames run)")
  case True
  then show ?thesis by (auto simp: process_next_frame_def Let_def)
next
  case False
  obtain frame fs where p: "frames run ! unat (a_frames_started run) = (frame, fs)"
    by (cases "frames run ! unat (a_frames_started run)")
  show ?thesis
    using False p process_frame_returns [of cd "run\<lparr>a_frames_started := a_frames_started run + 1\<rparr>" frame fs]
    by (auto simp: process_next_frame_def Let_def)
qed

lemma worker_step_returns:
  "\<exists>run'. worker_step cd t run = Some run' \<and> frames run' = frames run \<and> input run' = input run \<and>
     length (threads run') = length (threads run)"
proof (cases "t \<ge> length (threads run) \<or> threads run ! t")
  case True
  then show ?thesis by (auto simp: worker_step_def)
next
  case False
  obtain go run1 where "process_next_frame cd run = Some (go, run1)"
    "frames run1 = frames run" "input run1 = input run" "threads run1 = threads run"
    using process_next_frame_returns [of cd run] by blast
  then show ?thesis using False by (auto simp: worker_step_def notify_def)
qed

lemma run_schedule_returns:
  "\<exists>run'. run_schedule cd sched run = Some run' \<and> frames run' = frames run \<and> input run' = input run \<and>
     length (threads run') = length (threads run)"
proof (induction sched arbitrary: run)
  case Nil
  then show ?case by simp
next
  case (Cons t sched)
  obtain run1 where s: "worker_step cd t run = Some run1" "frames run1 = frames run"
    "input run1 = input run" "length (threads run1) = length (threads run)"
    using worker_step_returns [of cd t run] by blast
  then show ?case using Cons.IH [of run1] by auto
qed


lemma ex_process_bad:
  "process_frame ex_codec run 1 [ex_file_bad] =
     Some (False, run\<lparr>a_progress := a_progress run + 1,
                      errors := errors run @ [VersionParseError]\<rparr>)"
proof -
  have "\<not> list_all (decodes ex_codec) [ex_file_bad]" by (simp add: ex_decodes)
  from process_frame_failed [OF this, of run 1] show ?thesis
    by (simp add: ex_decodes decode_errors_def ex_outcome)
qed

lemma ex_process_good:
  "process_frame ex_codec run 7 [ex_file_a, ex_file_b] =
     Some (True, run\<lparr>a_progress := a_progress run + 3,
       save_calls := save_calls run @
         [(output_path (output_name run) 7,
           \<lparr>images = [''b.B'', ''a.G'', ''b.R''], image_other = ''image of a''\<rparr>,
           \<lparr>header_channels = [\<lparr>chan_name = ''B'', pixel_type = 2\<rparr>, \<lparr>chan_name = ''G'', pixel_type = 1\<rparr>,
                                \<lparr>chan_name = ''R'', pixel_type = 2\<rparr>],
            pixel_types = [2, 1, 2], requested_pixel_types = [2, 1, 2],
            header_other = ''header of a''\<rparr>)]\<rparr>)"
proof -
  have d: "list_all (decodes ex_codec) [ex_file_a, ex_file_b]" by (simp add: ex_decodes)
  have ne: "fst (merged_table ex_codec [ex_file_a, ex_file_b]) \<noteq> []" by (simp add: ex_merged)
  have s: "SaveEXRImageToFile ex_codec i h p = None" for i h p by (simp add: ex_codec_def)
  from process_frame_saved [OF d ne, of run 7] show ?thesis
    by (simp add: ex_merged ex_outcome Let_def s)
qed

lemma ex_threads: "threads (ex_run n) = replicate (if n = 0 then 6 else n) False"
  by (simp add: ex_run_def exrtool_process_def ex_input_def thread_count_def)

lemma ex_step_1_0:
  "worker_step ex_codec 0 (ex_run 1) =
     Some ((ex_run 1)\<lparr>a_frames_started := 1, a_progress := 1, a_threads_done := 1,
                       threads := [True], errors := [VersionParseError],
                       progress_calls := [AtExit 0]\<rparr>)"
  by (simp add: worker_step_def process_next_frame_def Let_def ex_frames ex_threads ex_run_fields
      ex_process_bad notify_def)


lemma worker_step_done: "list_all id (threads run) \<Longrightarrow> worker_step cd t run = Some run"
  by (cases "t < length (threads run)") (auto simp: worker_step_def list_all_length)

lemma run_schedule_done: "list_all id (threads run) \<Longrightarrow> run_schedule cd sched run = Some run"
  by (induction sched) (auto simp: worker_step_done)

section \<open>Claims on the workers and the progress counters\<close>

text \<open>
  Claim C1 on the example run with a single worker thread. The claim says that the failure
  to decode \<open>bad.0001.exr\<close> leaves the frame group of frame 7 to be claimed and
  processed. In the code \<open>process_next_frame\<close> returns what \<open>process_frame\<close>
  returns, and the worker's loop takes \<open>false\<close> for the end of the frames: after the
  worker's first turn, whatever turns follow, the run polls as complete, the cursor stays at
  1, the only error is that of frame 1, and nothing is ever saved for frame 7.
\<close>

theorem single_worker_stops_after_failure:
  "\<forall>sched. \<exists>run'.
     run_schedule ex_codec (0 # sched) (ex_run 1) = Some run' \<and>
     frames run' = [(1, [ex_file_bad]), (7, [ex_file_a, ex_file_b])] \<and>
     exrtool_poll run' = (True, 1, 5) \<and>
     a_frames_started run' = 1 \<and>
     errors run' = [VersionParseError] \<and>
     save_calls run' = []"
proof
  fix sched
  let ?S = "(ex_run 1)\<lparr>a_frames_started := 1, a_progress := 1, a_threads_done := 1,
                       threads := [True], errors := [VersionParseError],
                       progress_calls := [AtExit 0]\<rparr>"
  have "run_schedule ex_codec sched ?S = Some ?S"
    by (rule run_schedule_done) simp
  then have "run_schedule ex_codec (0 # sched) (ex_run 1) = Some ?S"
    unfolding run_schedule.simps ex_step_1_0 by simp
  moreover have "exrtool_poll ?S = (True, 1, 5)"
    by (simp add: exrtool_poll_def ex_frames ex_run_fields)
  ultimately show "\<exists>run'.
     run_schedule ex_codec (0 # sched) (ex_run 1) = Some run' \<and>
     frames run' = [(1, [ex_file_bad]), (7, [ex_file_a, ex_file_b])] \<and>
     exrtool_poll run' = (True, 1, 5) \<and>
     a_frames_started run' = 1 \<and>
     errors run' = [VersionParseError] \<and>
     save_calls run' = []"
    by (simp add: ex_frames ex_run_fields)
qed

text \<open>
  Claim C2 on the example run with two worker threads. Thread 0 claims index 0, which is in
  bounds, and the group fails: by the claim the notification is called once for the index
  and once more at the exit, but the thread leaves the loop at once and the only call is
  the one at the exit. In the whole run, thread 1 taking the two turns that remain, index 0
  has no call from inside the loop. The defect is the one of claim C1.
\<close>

theorem failed_frame_not_notified:
  "map_option (\<lambda>r. (a_frames_started r, progress_calls r)) (worker_step ex_codec 0 (ex_run 2))
     = Some (1, [AtExit 0]) \<and>
   map_option (\<lambda>r. (exrtool_poll r, errors r, map fst (save_calls r), progress_calls r))
       (run_schedule ex_codec [0, 1, 1] (ex_run 2))
     = Some ((True, 4, 5), [VersionParseError], [''out.0007.exr''],
             [AtExit 0, InLoop 1 1, AtExit 1])"
  by (simp add: worker_step_def process_next_frame_def Let_def ex_frames ex_threads ex_run_fields
      ex_process_bad ex_process_good notify_def exrtool_poll_def output_path_padded)

lemma process_frame_units:
  "\<exists>ok run'. process_frame cd run frame fs = Some (ok, run') \<and>
     a_progress run' = a_progress run + of_nat (frame_units cd fs) \<and>
     length (save_calls run') = length (save_calls run) +
       (if list_all (decodes cd) fs \<and> fst (merged_table cd fs) \<noteq> [] then 1 else 0) \<and>
     frames run' = frames run \<and> input run' = input run \<and> threads run' = threads run \<and>
     a_frames_started run' = a_frames_started run"
proof (cases "list_all (decodes cd) fs")
  case False
  then show ?thesis
    using process_frame_failed [OF False, of run frame]
    by (auto simp: frame_units_def decode_attempts_def)
next
  case True
  show ?thesis
  proof (cases "fst (merged_table cd fs) = []")
    case e: True
    then show ?thesis
      using process_frame_no_channels [OF True e, of run frame] True
      by (auto simp: takeWhile_all frame_units_def decode_attempts_def)
  next
    case ne: False
    show ?thesis
      using process_frame_saved [OF True ne, of run frame] True ne
      by (auto simp: Let_def takeWhile_all frame_units_def decode_attempts_def split: option.splits)
  qed
qed

lemma worker_step_units:
  "\<exists>run'. worker_step cd t run = Some run' \<and>
     a_progress run' = a_progress run + of_nat (step_units cd t run)"
proof (cases "t \<ge> length (threads run) \<or> threads run ! t")
  case True
  then show ?thesis by (auto simp: worker_step_def step_units_def)
next
  case False
  then have live: "t < length (threads run)" "\<not> threads run ! t" by auto
  show ?thesis
  proof (cases "unat (a_frames_started run) \<ge> length (frames run)")
    case True
    then show ?thesis using live
      by (auto simp: worker_step_def process_next_frame_def Let_def step_units_def notify_def)
  next
    case False
    obtain frame fs where p: "frames run ! unat (a_frames_started run) = (frame, fs)"
      by (cases "frames run ! unat (a_frames_started run)")
    obtain ok run1 where r:
      "process_frame cd (run\<lparr>a_frames_started := a_frames_started run + 1\<rparr>) frame fs = Some (ok, run1)"
      "a_progress run1 = a_progress run + of_nat (frame_units cd fs)"
      using process_frame_units [of cd "run\<lparr>a_frames_started := a_frames_started run + 1\<rparr>" frame fs]
      by auto
    show ?thesis using live False p r
      by (auto simp: worker_step_def process_next_frame_def Let_def step_units_def notify_def)
  qed
qed

lemma run_schedule_units:
  "\<exists>run'. run_schedule cd sched run = Some run' \<and>
     a_progress run' = a_progress run + of_nat (schedule_units cd sched run)"
proof (induction sched arbitrary: run)
  case Nil
  then show ?case by simp
next
  case (Cons t sched)
  obtain run1 where s: "worker_step cd t run = Some run1"
    "a_progress run1 = a_progress run + of_nat (step_units cd t run)"
    using worker_step_units [of cd t run] by blast
  obtain run2 where t: "run_schedule cd sched run1 = Some run2"
    "a_progress run2 = a_progress run1 + of_nat (schedule_units cd sched run1)"
    using Cons.IH [of run1] by blast
  show ?case using s t by (simp add: add.assoc)
qed

lemma ex_outcome_z:
  "decode_outcome ex_codec ex_file_a_z = decode_outcome ex_codec ex_file_a"
  "decode_outcome ex_codec ex_file_b_z = decode_outcome ex_codec ex_file_b"
  by (simp_all add: decode_outcome_channels ex_file_a_z_def ex_file_b_z_def ex_file_a_def ex_file_b_def)

lemma ex_merged_z: "merged_table ex_codec [ex_file_a_z, ex_file_b_z] = ([], [])"
proof -
  have c: "channels ex_file_a_z = {''Z''}" "channels ex_file_b_z = {''Z''}"
    by (simp_all add: ex_file_a_z_def ex_file_b_z_def)
  show ?thesis
    by (simp add: merged_table_def group_planes_def file_planes_def ex_outcome_z ex_outcome
        use_channel_def c)
qed

text \<open>
  Claim C3, as the code has it. Processing a frame group adds to the done units one for
  each file whose decode is attempted, whether it succeeds or fails, and one more when all
  files of the group decoded: then whether the save succeeds or fails, and also when the
  merged table is empty and no save is attempted. A turn of a worker adds the units of the
  group it processes and nothing else, and so do the turns of a schedule. A new run has no
  done units, its max units are the number of files plus the number of frame groups, and no
  turn changes the max units.
\<close>

theorem progress_units:
  "(\<exists>ok run'. process_frame cd run frame fs = Some (ok, run') \<and>
      a_progress run' = a_progress run + of_nat (decode_attempts cd fs)
                          + (if list_all (decodes cd) fs then 1 else 0) \<and>
      length (save_calls run') = length (save_calls run) +
        (if list_all (decodes cd) fs \<and> fst (merged_table cd fs) \<noteq> [] then 1 else 0)) \<and>
   (\<exists>run'. worker_step cd t run = Some run' \<and>
      a_progress run' = a_progress run + of_nat (step_units cd t run)) \<and>
   (\<exists>run'. run_schedule cd sched run = Some run' \<and>
      a_progress run' = a_progress run + of_nat (schedule_units cd sched run) \<and>
      snd (snd (exrtool_poll run')) = snd (snd (exrtool_poll run))) \<and>
   snd (exrtool_poll (exrtool_process ovf cores inp :: ('h, 'd, 'i) exrtool_run))
     = (0, length (files inp) + length (group_files ovf (files inp) []))"
proof (intro conjI)
  show "\<exists>ok run'. process_frame cd run frame fs = Some (ok, run') \<and>
      a_progress run' = a_progress run + of_nat (decode_attempts cd fs)
                          + (if list_all (decodes cd) fs then 1 else 0) \<and>
      length (save_calls run') = length (save_calls run) +
        (if list_all (decodes cd) fs \<and> fst (merged_table cd fs) \<noteq> [] then 1 else 0)"
    using process_frame_units [of cd run frame fs] by (auto simp: frame_units_def)
next
  show "\<exists>run'. worker_step cd t run = Some run' \<and>
      a_progress run' = a_progress run + of_nat (step_units cd t run)"
    by (rule worker_step_units)
next
  obtain run' where r: "run_schedule cd sched run = Some run'"
    "a_progress run' = a_progress run + of_nat (schedule_units cd sched run)"
    using run_schedule_units [of cd sched run] by blast
  moreover have "snd (snd (exrtool_poll run')) = snd (snd (exrtool_poll run))"
    using run_schedule_returns [of cd sched run] r(1) by (auto simp: exrtool_poll_def)
  ultimately show "\<exists>run'. run_schedule cd sched run = Some run' \<and>
      a_progress run' = a_progress run + of_nat (schedule_units cd sched run) \<and>
      snd (snd (exrtool_poll run')) = snd (snd (exrtool_poll run))"
    by blast
next
  show "snd (exrtool_poll (exrtool_process ovf cores inp :: ('h, 'd, 'i) exrtool_run))
     = (0, length (files inp) + length (group_files ovf (files inp) []))"
    by (simp add: exrtool_poll_def exrtool_process_def)
qed

text \<open>
  Two files that decode and have no requested channel: two decode attempts and no save
  attempt, which are two units by claim C3, and the counter is at three.
\<close>

theorem no_channel_group_counted:
  "map_option (\<lambda>r. (fst r, a_progress (snd r), errors (snd r), save_calls (snd r)))
     (process_frame ex_codec (ex_run 1) 7 [ex_file_a_z, ex_file_b_z])
   = Some (False, 3, [NoChannelsError 7], []) \<and>
   decode_attempts ex_codec [ex_file_a_z, ex_file_b_z] = 2"
proof -
  have d: "decodes ex_codec ex_file_a_z" "decodes ex_codec ex_file_b_z"
    by (simp_all add: decodes_def ex_outcome_z ex_outcome)
  then have a: "list_all (decodes ex_codec) [ex_file_a_z, ex_file_b_z]" by simp
  have e: "fst (merged_table ex_codec [ex_file_a_z, ex_file_b_z]) = []" by (simp add: ex_merged_z)
  from process_frame_no_channels [OF a e, of "ex_run 1" 7] show ?thesis
    by (simp add: ex_run_fields decode_attempts_def d)
qed

end
